theory Spec2Isabelle
  imports Main "HOL-Library.Word"
begin

section \<open>The buffer cache (kernel/bio.c)\<close>

text \<open>
  The C file keeps one global \<^verbatim>\<open>bcache\<close>: an array of \<^verbatim>\<open>NBUF\<close> buffers and an array of
  \<^verbatim>\<open>NBUCKET\<close> list heads, each head a \<^verbatim>\<open>struct buf\<close> of which only \<^verbatim>\<open>prev\<close> and
  \<^verbatim>\<open>next\<close> are written. The lists are intrusive and circular, so the model keeps the
  pointers: a pointer is null, the address of a pool buffer or the address of a list
  head, and the two arrays are the store they point into. The spin locks guard
  interleavings and are not part of a sequential model; each operation is one atomic
  step.
\<close>

type_synonym uint = "32 word"

datatype bptr = Null | Buf nat | Bucket nat

text \<open>
  \<^verbatim>\<open>struct buf\<close> is declared in kernel/buf.h; the fields are those bio.c reads and
  writes. \<open>lock\<close> is the sleep lock: the pid of the holder, or \<open>None\<close> when free.
\<close>

record buf =
  valid :: int
  dev :: uint
  blockno :: uint
  lock :: "nat option"
  refcnt :: uint
  prev :: bptr
  "next" :: bptr
  data :: "8 word list"
  ticks :: uint

text \<open>
  \<open>disk\<close> and \<open>io\<close> are the state of the disk collaborator: the content of every
  block, and the transfers made so far (buffer, write flag), oldest first.
\<close>

record bcache =
  buf :: "nat \<Rightarrow> buf"
  bucket :: "nat \<Rightarrow> buf"
  disk :: "uint \<times> uint \<Rightarrow> 8 word list"
  io :: "(bptr \<times> bool) list"

definition NBUCKET :: nat where
  "NBUCKET = 17"

text \<open>
  What stops a call before it returns: \<^verbatim>\<open>panic\<close> with its message, a dereference of
  the null pointer, an index outside an array, or a sleep in \<^verbatim>\<open>acquiresleep\<close> on a
  lock that is held (a sequential model has nobody to release it, so the call does not
  come back, and the state it has reached is not observed).
\<close>

datatype stop = Panic string | NullDeref | OutOfBounds | Blocked

definition deref :: "bcache \<Rightarrow> bptr \<Rightarrow> buf option" where
  "deref s p = (case p of Null \<Rightarrow> None | Buf i \<Rightarrow> Some (buf s i) | Bucket k \<Rightarrow> Some (bucket s k))"

definition store :: "bcache \<Rightarrow> bptr \<Rightarrow> buf \<Rightarrow> bcache" where
  "store s p v = (case p of Null \<Rightarrow> s
     | Buf i \<Rightarrow> s\<lparr>buf := (buf s)(i := v)\<rparr>
     | Bucket k \<Rightarrow> s\<lparr>bucket := (bucket s)(k := v)\<rparr>)"

text \<open>\<open>wr s p f\<close> is an assignment to fields of \<^verbatim>\<open>*p\<close>.\<close>

definition wr :: "bcache \<Rightarrow> bptr \<Rightarrow> (buf \<Rightarrow> buf) \<Rightarrow> stop + bcache" where
  "wr s p f = (case deref s p of None \<Rightarrow> Inl NullDeref | Some x \<Rightarrow> Inr (store s p (f x)))"

text \<open>
  Modelled from the spec: the sleep lock of kernel/sleeplock.c, which is not among the
  sources. The spec calls it the buffer's exclusive lock: acquiring it blocks "until the
  buffer's exclusive lock is free", and write and release check "lock ownership".
\<close>

definition holdingsleep :: "nat \<Rightarrow> buf \<Rightarrow> bool" where
  "holdingsleep pid x = (lock x = Some pid)"

definition acquiresleep :: "nat \<Rightarrow> bcache \<Rightarrow> bptr \<Rightarrow> stop + bcache" where
  "acquiresleep pid s p = (case deref s p of None \<Rightarrow> Inl NullDeref
     | Some x \<Rightarrow> if lock x = None then Inr (store s p (x\<lparr>lock := Some pid\<rparr>)) else Inl Blocked)"

definition releasesleep :: "bcache \<Rightarrow> bptr \<Rightarrow> stop + bcache" where
  "releasesleep s p = wr s p (\<lambda>x. x\<lparr>lock := None\<rparr>)"

text \<open>
  Modelled from the spec: the disk driver \<^verbatim>\<open>virtio_disk_rw\<close>, which is not among the
  sources: "given a buffer's device/block identity and (for writes) its content,
  performs the transfer and, for reads, fills the buffer's content".
\<close>

definition virtio_disk_rw :: "bcache \<Rightarrow> bptr \<Rightarrow> bool \<Rightarrow> stop + bcache" where
  "virtio_disk_rw s p w = (case deref s p of None \<Rightarrow> Inl NullDeref
     | Some x \<Rightarrow>
         if w then Inr (s\<lparr>disk := (disk s)((dev x, blockno x) := data x), io := io s @ [(p, True)]\<rparr>)
         else Inr ((store s p (x\<lparr>data := disk s (dev x, blockno x)\<rparr>))\<lparr>io := io s @ [(p, False)]\<rparr>))"

subsection \<open>binit\<close>

text \<open>
  The globals of a C program start zeroed: every pointer null, every count 0.
  \<^verbatim>\<open>binit\<close> makes each bucket an empty circular list and initialises the sleep lock of
  every pool buffer (\<open>nbuf\<close> is \<^verbatim>\<open>NBUF\<close> of kernel/param.h).
\<close>

definition buf0 :: buf where
  "buf0 = \<lparr>valid = 0, dev = 0, blockno = 0, lock = None, refcnt = 0, prev = Null, next = Null,
           data = [], ticks = 0\<rparr>"

definition bcache0 :: bcache where
  "bcache0 = \<lparr>buf = (\<lambda>i. buf0), bucket = (\<lambda>k. buf0), disk = (\<lambda>k. []), io = []\<rparr>"

fun binit_loop :: "nat \<Rightarrow> bcache \<Rightarrow> bcache" where
  "binit_loop 0 s = s"
| "binit_loop (Suc n) s =
     (let s' = binit_loop n s
      in s'\<lparr>bucket := (bucket s')(n := (bucket s' n)\<lparr>prev := Bucket n, next := Bucket n\<rparr>)\<rparr>)"

fun binit_locks :: "nat \<Rightarrow> bcache \<Rightarrow> bcache" where
  "binit_locks 0 s = s"
| "binit_locks (Suc n) s =
     (let s' = binit_locks n s in s'\<lparr>buf := (buf s')(n := (buf s' n)\<lparr>lock := None\<rparr>)\<rparr>)"

definition binit :: "nat \<Rightarrow> bcache \<Rightarrow> bcache" where
  "binit nbuf s = binit_locks nbuf (binit_loop NBUCKET s)"

subsection \<open>bget\<close>

text \<open>
  The first loop of \<^verbatim>\<open>bget\<close> follows \<^verbatim>\<open>next\<close> from the head of the bucket until it is
  back at the head. Nothing in the code bounds it, so it is a partial function:
  \<open>None\<close> is a walk that never ends.
\<close>

datatype scan_result = Found bptr | NotFound | ScanNull

partial_function (option) scan :: "bcache \<Rightarrow> nat \<Rightarrow> uint \<Rightarrow> uint \<Rightarrow> bptr \<Rightarrow> scan_result option" where
  "scan s key d bn b =
     (if b = Bucket key then Some NotFound
      else case deref s b of None \<Rightarrow> Some ScanNull
        | Some x \<Rightarrow> if dev x = d \<and> blockno x = bn then Some (Found b)
                    else scan s key d bn (next x))"

text \<open>
  The second loop looks at every slot of the pool, \<open>lb\<close> the candidate so far
  (\<open>None\<close> for the null pointer). \<open>lru_loop s i n lb\<close> runs the slots \<open>i, \<dots>, i + n - 1\<close>.
\<close>

fun lru_loop :: "bcache \<Rightarrow> nat \<Rightarrow> nat \<Rightarrow> nat option \<Rightarrow> nat option" where
  "lru_loop s i 0 lb = lb"
| "lru_loop s i (Suc n) lb =
     lru_loop s (Suc i) n
       (if (lb = None \<and> refcnt (buf s i) = 0)
           \<or> (refcnt (buf s i) = 0 \<and> (case lb of None \<Rightarrow> False | Some l \<Rightarrow> ticks (buf s l) > ticks (buf s i)))
        then Some i else lb)"

definition bkey :: "uint \<Rightarrow> nat" where
  "bkey bn = unat bn mod NBUCKET"

text \<open>The binding of the chosen buffer \<open>b\<close> to the key, lines 93 to 100.\<close>

definition rebind :: "bcache \<Rightarrow> nat \<Rightarrow> uint \<Rightarrow> uint \<Rightarrow> stop + bcache" where
  "rebind s b d bn =
     (let key = bkey bn;
          s1 = s\<lparr>buf := (buf s)(b := (buf s b)\<lparr>dev := d, blockno := bn, valid := 0, refcnt := 1,
                    next := next (bucket s key), prev := Bucket key\<rparr>)\<rparr>
      in case wr s1 (next (bucket s1 key)) (\<lambda>x. x\<lparr>prev := Buf b\<rparr>) of
           Inl e \<Rightarrow> Inl e
         | Inr s2 \<Rightarrow> Inr (s2\<lparr>bucket := (bucket s2)(key := (bucket s2 key)\<lparr>next := Buf b\<rparr>)\<rparr>))"

text \<open>
  \<open>nbuf\<close> is \<^verbatim>\<open>NBUF\<close> of kernel/param.h and \<open>pid\<close> the calling process. The result is
  \<open>None\<close> when the first loop never ends.
\<close>

definition bget :: "nat \<Rightarrow> nat \<Rightarrow> uint \<Rightarrow> uint \<Rightarrow> bcache \<Rightarrow> (stop + bptr \<times> bcache) option" where
  "bget nbuf pid d bn s =
     (case scan s (bkey bn) d bn (next (bucket s (bkey bn))) of
        None \<Rightarrow> None
      | Some ScanNull \<Rightarrow> Some (Inl NullDeref)
      | Some (Found b) \<Rightarrow>
          Some (case wr s b (\<lambda>x. x\<lparr>refcnt := refcnt x + 1\<rparr>) of
                  Inl e \<Rightarrow> Inl e
                | Inr s1 \<Rightarrow> (case acquiresleep pid s1 b of Inl e \<Rightarrow> Inl e | Inr s2 \<Rightarrow> Inr (b, s2)))
      | Some NotFound \<Rightarrow>
          Some (case lru_loop s 0 nbuf None of
                  None \<Rightarrow> Inl (Panic ''bget: no buffers'')
                | Some b \<Rightarrow>
                    (case rebind s b d bn of
                       Inl e \<Rightarrow> Inl e
                     | Inr s1 \<Rightarrow>
                         (case acquiresleep pid s1 (Buf b) of
                            Inl e \<Rightarrow> Inl e
                          | Inr s2 \<Rightarrow> Inr (Buf b, s2)))))"

subsection \<open>bread, bwrite, brelse, bpin, bunpin\<close>

definition bread :: "nat \<Rightarrow> nat \<Rightarrow> uint \<Rightarrow> uint \<Rightarrow> bcache \<Rightarrow> (stop + bptr \<times> bcache) option" where
  "bread nbuf pid d bn s =
     (case bget nbuf pid d bn s of
        None \<Rightarrow> None
      | Some (Inl e) \<Rightarrow> Some (Inl e)
      | Some (Inr (b, s1)) \<Rightarrow>
          Some (case deref s1 b of
                  None \<Rightarrow> Inl NullDeref
                | Some x \<Rightarrow>
                    if valid x = 0 then
                      (case virtio_disk_rw s1 b False of
                         Inl e \<Rightarrow> Inl e
                       | Inr s2 \<Rightarrow>
                           (case wr s2 b (\<lambda>x. x\<lparr>valid := 1\<rparr>) of
                              Inl e \<Rightarrow> Inl e
                            | Inr s3 \<Rightarrow> Inr (b, s3)))
                    else Inr (b, s1)))"

definition bwrite :: "nat \<Rightarrow> bptr \<Rightarrow> bcache \<Rightarrow> stop + bcache" where
  "bwrite pid b s =
     (case deref s b of
        None \<Rightarrow> Inl NullDeref
      | Some x \<Rightarrow> if \<not> holdingsleep pid x then Inl (Panic ''bwrite'') else virtio_disk_rw s b True)"

text \<open>
  \<open>now\<close> is the value of the global \<^verbatim>\<open>ticks\<close> of kernel/trap.c when \<^verbatim>\<open>brelse\<close> reads
  it. Each pointer is read again from the store at the statement that uses it, as in
  the C: \<^verbatim>\<open>b->prev->next = b->next\<close> runs after \<^verbatim>\<open>b->next->prev = b->prev\<close>.
\<close>

definition unlink :: "bcache \<Rightarrow> bptr \<Rightarrow> uint \<Rightarrow> stop + bcache" where
  "unlink s b now =
     (case deref s b of
        None \<Rightarrow> Inl NullDeref
      | Some x \<Rightarrow>
          (case wr s (next x) (\<lambda>y. y\<lparr>prev := prev x\<rparr>) of
             Inl e \<Rightarrow> Inl e
           | Inr s1 \<Rightarrow>
               (case deref s1 b of
                  None \<Rightarrow> Inl NullDeref
                | Some x1 \<Rightarrow>
                    (case wr s1 (prev x1) (\<lambda>y. y\<lparr>next := next x1\<rparr>) of
                       Inl e \<Rightarrow> Inl e
                     | Inr s2 \<Rightarrow> wr s2 b (\<lambda>y. y\<lparr>prev := Null, next := Null, ticks := now\<rparr>)))))"

definition brelse :: "nat \<Rightarrow> uint \<Rightarrow> bptr \<Rightarrow> bcache \<Rightarrow> stop + bcache" where
  "brelse pid now b s =
     (case deref s b of
        None \<Rightarrow> Inl NullDeref
      | Some x \<Rightarrow>
          if \<not> holdingsleep pid x then Inl (Panic ''brelse'')
          else
            (case releasesleep s b of
               Inl e \<Rightarrow> Inl e
             | Inr s1 \<Rightarrow>
                 (case wr s1 b (\<lambda>y. y\<lparr>refcnt := refcnt y - 1\<rparr>) of
                    Inl e \<Rightarrow> Inl e
                  | Inr s2 \<Rightarrow>
                      (case deref s2 b of
                         None \<Rightarrow> Inl NullDeref
                       | Some x2 \<Rightarrow> if refcnt x2 = 0 then unlink s2 b now else Inr s2))))"

definition bpin :: "bptr \<Rightarrow> bcache \<Rightarrow> stop + bcache" where
  "bpin b s = wr s b (\<lambda>x. x\<lparr>refcnt := refcnt x + 1\<rparr>)"

definition bunpin :: "bptr \<Rightarrow> bcache \<Rightarrow> stop + bcache" where
  "bunpin b s = wr s b (\<lambda>x. x\<lparr>refcnt := refcnt x - 1\<rparr>)"

subsection \<open>Sequences of calls\<close>

text \<open>
  A call of the interface with its arguments (the calling process first, where the
  function uses it), and a sequence of calls run from left to right until one of them
  stops. The buffer that \<^verbatim>\<open>bget\<close> or \<^verbatim>\<open>bread\<close> returns is dropped: the next call sees the
  state it leaves.
\<close>

datatype bcall = Bget nat uint uint | Bread nat uint uint | Bwrite nat bptr
  | Brelse nat uint bptr | Bpin bptr | Bunpin bptr

definition bstep :: "nat \<Rightarrow> bcall \<Rightarrow> bcache \<Rightarrow> (stop + bcache) option" where
  "bstep nbuf c s = (case c of
       Bget pid d bn \<Rightarrow> (case bget nbuf pid d bn s of
           None \<Rightarrow> None | Some (Inl e) \<Rightarrow> Some (Inl e) | Some (Inr (b, s')) \<Rightarrow> Some (Inr s'))
     | Bread pid d bn \<Rightarrow> (case bread nbuf pid d bn s of
           None \<Rightarrow> None | Some (Inl e) \<Rightarrow> Some (Inl e) | Some (Inr (b, s')) \<Rightarrow> Some (Inr s'))
     | Bwrite pid b \<Rightarrow> Some (bwrite pid b s)
     | Brelse pid now b \<Rightarrow> Some (brelse pid now b s)
     | Bpin b \<Rightarrow> Some (bpin b s)
     | Bunpin b \<Rightarrow> Some (bunpin b s))"

fun brun :: "nat \<Rightarrow> bcall list \<Rightarrow> bcache \<Rightarrow> (stop + bcache) option" where
  "brun nbuf [] s = Some (Inr s)"
| "brun nbuf (c # cs) s = (case bstep nbuf c s of
       None \<Rightarrow> None | Some (Inl e) \<Rightarrow> Some (Inl e) | Some (Inr s') \<Rightarrow> brun nbuf cs s')"

section \<open>The physical page allocator (kernel/kalloc.c)\<close>

text \<open>
  Addresses are natural numbers and physical memory is a function from addresses to
  bytes. The C computes addresses in \<^verbatim>\<open>uint64\<close>; the two agree as long as no sum reaches
  \<open>2^64\<close>, which the statements about \<^verbatim>\<open>kinit\<close> assume of the layout. The free list is
  intrusive: \<^verbatim>\<open>struct run\<close> is one pointer, stored in the first eight bytes of the free page itself (little-endian, as on RISC-V), so \<^verbatim>\<open>memset\<close> on
  a page and the \<^verbatim>\<open>next\<close> pointers of the list share the same store. The spin lock
  \<^verbatim>\<open>kmem.lock\<close> is not part of a sequential model.

  The reference counts are C \<^verbatim>\<open>int\<close>s of 32 bits. They are read as integers, and the sum
  that \<^verbatim>\<open>addref\<close> stores is taken in 32 bits, two's complement, as the compiled code
  does: one more than \<open>2^31 - 1\<close> is \<open>- 2^31\<close>. The difference that \<^verbatim>\<open>subref\<close> stores is
  taken of a positive count only and needs no such care.
\<close>

type_synonym memory = "nat \<Rightarrow> 8 word"

record kmem =
  ref :: "nat \<Rightarrow> int"
  freelist :: nat
  mem :: memory

text \<open>
  Modelled from the spec: \<^verbatim>\<open>PGSIZE\<close> and \<^verbatim>\<open>PGROUNDUP\<close> of kernel/riscv.h, which is not among
  the sources: "Page size (reference value: 4096 bytes)", and pages are "page-aligned".
\<close>

definition PGSIZE :: nat where
  "PGSIZE = 4096"

definition PGROUNDUP :: "nat \<Rightarrow> nat" where
  "PGROUNDUP sz = ((sz + PGSIZE - 1) div PGSIZE) * PGSIZE"

text \<open>\<^verbatim>\<open>memset\<close> of kernel/string.c: \<open>n\<close> bytes from \<open>dst\<close> become \<open>c\<close>.\<close>

definition memset :: "memory \<Rightarrow> nat \<Rightarrow> 8 word \<Rightarrow> nat \<Rightarrow> memory" where
  "memset m dst c n = (\<lambda>a. if dst \<le> a \<and> a < dst + n then c else m a)"

fun load_le :: "memory \<Rightarrow> nat \<Rightarrow> nat \<Rightarrow> nat" where
  "load_le m a 0 = 0"
| "load_le m a (Suc n) = unat (m a) + 256 * load_le m (Suc a) n"

fun store_le :: "memory \<Rightarrow> nat \<Rightarrow> nat \<Rightarrow> nat \<Rightarrow> memory" where
  "store_le m a 0 v = m"
| "store_le m a (Suc n) v = store_le (m(a := of_nat (v mod 256))) (Suc a) n (v div 256)"

text \<open>\<^verbatim>\<open>r->next\<close> read and written, for \<^verbatim>\<open>struct run *r\<close> at address \<open>r\<close>.\<close>

definition run_next :: "memory \<Rightarrow> nat \<Rightarrow> nat" where
  "run_next m r = load_le m r 8"

definition set_run_next :: "memory \<Rightarrow> nat \<Rightarrow> nat \<Rightarrow> memory" where
  "set_run_next m r v = store_le m r 8 v"

text \<open>\<open>int32 x\<close>: the value of the integer \<open>x\<close> once it is stored in a C \<^verbatim>\<open>int\<close>.\<close>

definition int32 :: "int \<Rightarrow> int" where
  "int32 x = sint (word_of_int x :: 32 word)"

text \<open>
  \<open>phystop\<close> is \<^verbatim>\<open>PHYSTOP\<close> of kernel/memlayout.h and \<open>e\<close> the address \<^verbatim>\<open>end\<close> that the
  linker script defines. The array \<^verbatim>\<open>ref\<close> has \<^verbatim>\<open>PHYSTOP/PGSIZE\<close> entries.
\<close>

definition getref :: "nat \<Rightarrow> kmem \<Rightarrow> nat \<Rightarrow> stop + int" where
  "getref phystop s pa =
     (if pa div PGSIZE < phystop div PGSIZE then Inr (ref s (pa div PGSIZE)) else Inl OutOfBounds)"

definition addref :: "nat \<Rightarrow> nat \<Rightarrow> kmem \<Rightarrow> stop + kmem" where
  "addref phystop pa s =
     (case getref phystop s pa of
        Inl x \<Rightarrow> Inl x
      | Inr c \<Rightarrow> Inr (s\<lparr>ref := (ref s)(pa div PGSIZE := int32 (c + 1))\<rparr>))"

definition subref :: "nat \<Rightarrow> nat \<Rightarrow> kmem \<Rightarrow> stop + kmem" where
  "subref phystop pa s =
     (case getref phystop s pa of
        Inl x \<Rightarrow> Inl x
      | Inr count \<Rightarrow> if count > 0 then Inr (s\<lparr>ref := (ref s)(pa div PGSIZE := count - 1)\<rparr>) else Inr s)"

definition kfree :: "nat \<Rightarrow> nat \<Rightarrow> nat \<Rightarrow> kmem \<Rightarrow> stop + kmem" where
  "kfree e phystop pa s =
     (if pa mod PGSIZE \<noteq> 0 \<or> pa < e \<or> pa \<ge> phystop then Inl (Panic ''kfree'')
      else
        (case subref phystop pa s of
           Inl x \<Rightarrow> Inl x
         | Inr s1 \<Rightarrow>
             (case getref phystop s1 pa of
                Inl x \<Rightarrow> Inl x
              | Inr c \<Rightarrow>
                  if c = 0 then
                    Inr (s1\<lparr>mem := set_run_next (memset (mem s1) pa 1 PGSIZE) pa (freelist s1),
                             freelist := pa\<rparr>)
                  else Inr s1)))"

text \<open>\<^verbatim>\<open>kalloc\<close> returns the page and the new state; the page 0 is the null pointer.\<close>

definition kalloc :: "nat \<Rightarrow> kmem \<Rightarrow> stop + nat \<times> kmem" where
  "kalloc phystop s =
     (let r = freelist s
      in if r \<noteq> 0 then
           (case addref phystop r s of
              Inl x \<Rightarrow> Inl x
            | Inr s1 \<Rightarrow>
                (let s2 = s1\<lparr>freelist := run_next (mem s1) r\<rparr>
                 in Inr (r, s2\<lparr>mem := memset (mem s2) r 5 PGSIZE\<rparr>)))
         else Inr (r, s))"

function freerange_loop :: "nat \<Rightarrow> nat \<Rightarrow> nat \<Rightarrow> nat \<Rightarrow> kmem \<Rightarrow> stop + kmem" where
  "freerange_loop e phystop p pa_end s =
     (if p + PGSIZE \<le> pa_end then
        (case kfree e phystop p s of
           Inl x \<Rightarrow> Inl x
         | Inr s' \<Rightarrow> freerange_loop e phystop (p + PGSIZE) pa_end s')
      else Inr s)"
  by pat_completeness auto
termination
  by (relation "measure (\<lambda>(e, phystop, p, pa_end, s). pa_end - p)") (auto simp: PGSIZE_def)

definition freerange :: "nat \<Rightarrow> nat \<Rightarrow> nat \<Rightarrow> nat \<Rightarrow> kmem \<Rightarrow> stop + kmem" where
  "freerange e phystop pa_start pa_end s = freerange_loop e phystop (PGROUNDUP pa_start) pa_end s"

definition kinit :: "nat \<Rightarrow> nat \<Rightarrow> kmem \<Rightarrow> stop + kmem" where
  "kinit e phystop s = freerange e phystop e phystop s"

text \<open>The zeroed globals before \<^verbatim>\<open>kinit\<close>; the content of memory is not known.\<close>

definition kmem0 :: "memory \<Rightarrow> kmem" where
  "kmem0 m = \<lparr>ref = (\<lambda>i. 0), freelist = 0, mem = m\<rparr>"

text \<open>
  \<^verbatim>\<open>kfreemem\<close> walks the list until the null pointer; a list with a cycle is a walk
  that never ends, the value \<open>None\<close>.
\<close>

partial_function (option) kfreemem_loop :: "memory \<Rightarrow> nat \<Rightarrow> nat \<Rightarrow> nat option" where
  "kfreemem_loop m current freenodes =
     (if current \<noteq> 0 then kfreemem_loop m (run_next m current) (freenodes + 1)
      else Some freenodes)"

definition kfreemem :: "kmem \<Rightarrow> nat option" where
  "kfreemem s = (case kfreemem_loop (mem s) (freelist s) 0 of
       None \<Rightarrow> None | Some freenodes \<Rightarrow> Some (freenodes * PGSIZE))"

text \<open>
  A sequence of calls, run from left to right until one of them stops. \<^verbatim>\<open>kalloc\<close>'s
  result is dropped: the next call sees the state it leaves.
\<close>

datatype kcall = Kinit | Kalloc | Kfree nat | Addref nat | Subref nat

definition kstep :: "nat \<Rightarrow> nat \<Rightarrow> kcall \<Rightarrow> kmem \<Rightarrow> stop + kmem" where
  "kstep e phystop c s = (case c of
       Kinit \<Rightarrow> kinit e phystop s
     | Kalloc \<Rightarrow> (case kalloc phystop s of Inl x \<Rightarrow> Inl x | Inr (r, s') \<Rightarrow> Inr s')
     | Kfree pa \<Rightarrow> kfree e phystop pa s
     | Addref pa \<Rightarrow> addref phystop pa s
     | Subref pa \<Rightarrow> subref phystop pa s)"

fun krun :: "nat \<Rightarrow> nat \<Rightarrow> kcall list \<Rightarrow> kmem \<Rightarrow> stop + kmem" where
  "krun e phystop [] s = Inr s"
| "krun e phystop (c # cs) s =
     (case kstep e phystop c s of Inl x \<Rightarrow> Inl x | Inr s' \<Rightarrow> krun e phystop cs s')"

section \<open>Vocabulary of the statements\<close>

text \<open>
  \<open>best s m lb\<close>: \<open>lb\<close> is what the second loop of \<^verbatim>\<open>bget\<close> must hold after the slots
  below \<open>m\<close>: nothing when none of them has reference count zero, otherwise the first
  slot among those with reference count zero and the least \<^verbatim>\<open>ticks\<close>.
\<close>

definition best :: "bcache \<Rightarrow> nat \<Rightarrow> nat option \<Rightarrow> bool" where
  "best s m lb = (case lb of
      None \<Rightarrow> (\<forall>j<m. refcnt (buf s j) \<noteq> 0)
    | Some l \<Rightarrow> l < m \<and> refcnt (buf s l) = 0
         \<and> (\<forall>j<m. refcnt (buf s j) = 0 \<longrightarrow> ticks (buf s l) \<le> ticks (buf s j))
         \<and> (\<forall>j<l. refcnt (buf s j) = 0 \<longrightarrow> ticks (buf s l) < ticks (buf s j)))"

text \<open>\<open>hit s d bn i\<close>: buffer \<open>i\<close> carries the key \<open>(d, bn)\<close>.\<close>

definition hit :: "bcache \<Rightarrow> uint \<Rightarrow> uint \<Rightarrow> nat \<Rightarrow> bool" where
  "hit s d bn i = (dev (buf s i) = d \<and> blockno (buf s i) = bn)"

text \<open>
  The \<^verbatim>\<open>next\<close> and \<^verbatim>\<open>prev\<close> fields as functions on pointers (null at the null pointer).
  \<open>dl nx pv a bs z\<close>: following \<open>nx\<close> from \<open>a\<close> one meets the buffers \<open>bs\<close> in this
  order and then \<open>z\<close>, and \<open>pv\<close> leads back the same way. \<open>bucket_list s k bs\<close>: the
  circular list of bucket \<open>k\<close> holds the buffers \<open>bs\<close>, each once.
\<close>

definition nxt :: "bcache \<Rightarrow> bptr \<Rightarrow> bptr" where
  "nxt s p = (case deref s p of None \<Rightarrow> Null | Some x \<Rightarrow> next x)"

definition prv :: "bcache \<Rightarrow> bptr \<Rightarrow> bptr" where
  "prv s p = (case deref s p of None \<Rightarrow> Null | Some x \<Rightarrow> prev x)"

fun dl :: "(bptr \<Rightarrow> bptr) \<Rightarrow> (bptr \<Rightarrow> bptr) \<Rightarrow> bptr \<Rightarrow> nat list \<Rightarrow> bptr \<Rightarrow> bool" where
  "dl nx pv a [] z = (nx a = z \<and> pv z = a)"
| "dl nx pv a (b # bs) z = (nx a = Buf b \<and> pv (Buf b) = a \<and> dl nx pv (Buf b) bs z)"

definition bucket_list :: "bcache \<Rightarrow> nat \<Rightarrow> nat list \<Rightarrow> bool" where
  "bucket_list s k bs = (dl (nxt s) (prv s) (Bucket k) bs (Bucket k) \<and> distinct bs)"

text \<open>
  \<open>on_bucket s k p\<close>: the walk that starts at the head of bucket \<open>k\<close> and follows
  \<^verbatim>\<open>next\<close> meets \<open>p\<close> before it is back at the head: \<open>p\<close> is linked into bucket \<open>k\<close>.
\<close>

inductive on_bucket :: "bcache \<Rightarrow> nat \<Rightarrow> bptr \<Rightarrow> bool" for s k where
  first: "nxt s (Bucket k) \<noteq> Bucket k \<Longrightarrow> nxt s (Bucket k) \<noteq> Null \<Longrightarrow> on_bucket s k (nxt s (Bucket k))"
| later: "on_bucket s k p \<Longrightarrow> nxt s p \<noteq> Bucket k \<Longrightarrow> nxt s p \<noteq> Null \<Longrightarrow> on_bucket s k (nxt s p)"

text \<open>
  The state of the cache between calls that use it as intended. \<open>L k\<close> is the list of
  bucket \<open>k\<close>. A linked buffer belongs to the pool, hashes to the bucket it is in and has
  a reference count other than zero; every pool buffer with such a count is linked; and
  a buffer with reference count zero is not locked.
\<close>

definition bc_lists :: "nat \<Rightarrow> bcache \<Rightarrow> (nat \<Rightarrow> nat list) \<Rightarrow> bool" where
  "bc_lists nbuf s L =
     ((\<forall>k<NBUCKET. bucket_list s k (L k)
          \<and> (\<forall>i\<in>set (L k). i < nbuf \<and> bkey (blockno (buf s i)) = k \<and> refcnt (buf s i) \<noteq> 0))
      \<and> (\<forall>i<nbuf. refcnt (buf s i) \<noteq> 0 \<longrightarrow> i \<in> set (L (bkey (blockno (buf s i)))))
      \<and> (\<forall>i<nbuf. refcnt (buf s i) = 0 \<longrightarrow> lock (buf s i) = None))"

definition bc_inv :: "nat \<Rightarrow> bcache \<Rightarrow> bool" where
  "bc_inv nbuf s = (\<exists>L. bc_lists nbuf s L)"

text \<open>
  \<open>proper nbuf s c\<close>: the call \<open>c\<close> uses the cache as its callers in the kernel do.
  Buffer arguments point into the pool; \<^verbatim>\<open>bpin\<close> is applied to a buffer whose count is
  not zero; \<^verbatim>\<open>bunpin\<close> leaves the count above zero (the caller still holds the buffer);
  and no count wraps around \<open>2^32\<close>. \<open>proper_run\<close>: every call of the sequence is proper
  in the state it is made in.
\<close>

fun proper :: "nat \<Rightarrow> bcache \<Rightarrow> bcall \<Rightarrow> bool" where
  "proper nbuf s (Bget pid d bn) =
     (\<forall>i<nbuf. dev (buf s i) = d \<and> blockno (buf s i) = bn \<longrightarrow> refcnt (buf s i) + 1 \<noteq> 0)"
| "proper nbuf s (Bread pid d bn) =
     (\<forall>i<nbuf. dev (buf s i) = d \<and> blockno (buf s i) = bn \<longrightarrow> refcnt (buf s i) + 1 \<noteq> 0)"
| "proper nbuf s (Bwrite pid b) = (\<exists>i<nbuf. b = Buf i)"
| "proper nbuf s (Brelse pid now b) = (\<exists>i<nbuf. b = Buf i)"
| "proper nbuf s (Bpin b) =
     (\<exists>i<nbuf. b = Buf i \<and> refcnt (buf s i) \<noteq> 0 \<and> refcnt (buf s i) + 1 \<noteq> 0)"
| "proper nbuf s (Bunpin b) =
     (\<exists>i<nbuf. b = Buf i \<and> refcnt (buf s i) \<noteq> 0 \<and> refcnt (buf s i) - 1 \<noteq> 0)"

fun proper_run :: "nat \<Rightarrow> bcall list \<Rightarrow> bcache \<Rightarrow> bool" where
  "proper_run nbuf [] s = True"
| "proper_run nbuf (c # cs) s =
     (proper nbuf s c \<and> (case bstep nbuf c s of Some (Inr s') \<Rightarrow> proper_run nbuf cs s' | _ \<Rightarrow> True))"

text \<open>
  The allocator. \<open>managed e phystop p\<close>: \<open>p\<close> is one of the pages that \<^verbatim>\<open>kinit\<close> frees, a
  page-aligned address from the first page boundary at or after \<^verbatim>\<open>end\<close> whose page ends at
  or below \<^verbatim>\<open>PHYSTOP\<close>. \<open>flist m h ps\<close>: following \<^verbatim>\<open>next\<close> from \<open>h\<close> in the memory \<open>m\<close> one
  meets the pages \<open>ps\<close> and then the null pointer. \<open>on_freelist s p\<close>: the walk from
  \<^verbatim>\<open>kmem.freelist\<close> meets \<open>p\<close>.
\<close>

definition managed :: "nat \<Rightarrow> nat \<Rightarrow> nat \<Rightarrow> bool" where
  "managed e phystop p = (p mod PGSIZE = 0 \<and> PGROUNDUP e \<le> p \<and> p + PGSIZE \<le> phystop)"

fun flist :: "memory \<Rightarrow> nat \<Rightarrow> nat list \<Rightarrow> bool" where
  "flist m h [] = (h = 0)"
| "flist m h (p # ps) = (h = p \<and> p \<noteq> 0 \<and> flist m (run_next m p) ps)"

inductive on_freelist :: "kmem \<Rightarrow> nat \<Rightarrow> bool" for s where
  head: "freelist s \<noteq> 0 \<Longrightarrow> on_freelist s (freelist s)"
| step: "on_freelist s p \<Longrightarrow> run_next (mem s) p \<noteq> 0 \<Longrightarrow> on_freelist s (run_next (mem s) p)"

text \<open>
  The state of the allocator between calls that use it as intended: the free list is a
  list of managed pages, each once; a managed page is on it exactly when its count is
  zero; and no count is negative.
\<close>

definition free_pages :: "nat \<Rightarrow> nat \<Rightarrow> kmem \<Rightarrow> nat list \<Rightarrow> bool" where
  "free_pages e phystop s ps =
     (flist (mem s) (freelist s) ps \<and> distinct ps \<and> (\<forall>p\<in>set ps. managed e phystop p))"

definition kinv :: "nat \<Rightarrow> nat \<Rightarrow> kmem \<Rightarrow> bool" where
  "kinv e phystop s = (\<exists>ps. free_pages e phystop s ps
      \<and> (\<forall>p. managed e phystop p \<longrightarrow> (p \<in> set ps) = (ref s (p div PGSIZE) = 0))
      \<and> (\<forall>i. 0 \<le> ref s i))"

text \<open>\<open>ref_in_int s\<close>: every count of the state is a value of a C \<^verbatim>\<open>int\<close>.\<close>

definition ref_in_int :: "kmem \<Rightarrow> bool" where
  "ref_in_int s = (\<forall>i. - 2147483648 \<le> ref s i \<and> ref s i < 2147483648)"

text \<open>
  \<open>kbounded s c\<close>: the call \<open>c\<close> does not add one to a count that is \<open>2^31 - 1\<close>, the
  greatest \<^verbatim>\<open>int\<close>. The calls that add are \<^verbatim>\<open>addref\<close> and \<^verbatim>\<open>kalloc\<close>, which applies
  \<^verbatim>\<open>addref\<close> to the head of the free list. \<open>kbounded_run\<close>: this holds of every call of
  the sequence in the state it is made in.
\<close>

fun kbounded :: "kmem \<Rightarrow> kcall \<Rightarrow> bool" where
  "kbounded s Kinit = True"
| "kbounded s Kalloc = (freelist s \<noteq> 0 \<longrightarrow> ref s (freelist s div PGSIZE) < 2147483647)"
| "kbounded s (Kfree pa) = True"
| "kbounded s (Addref pa) = (ref s (pa div PGSIZE) < 2147483647)"
| "kbounded s (Subref pa) = True"

fun kbounded_run :: "nat \<Rightarrow> nat \<Rightarrow> kcall list \<Rightarrow> kmem \<Rightarrow> bool" where
  "kbounded_run e phystop [] s = True"
| "kbounded_run e phystop (c # cs) s =
     (kbounded s c \<and> (case kstep e phystop c s of Inr s' \<Rightarrow> kbounded_run e phystop cs s' | Inl x \<Rightarrow> True))"

text \<open>
  \<open>kproper e phystop s c\<close>: after \<^verbatim>\<open>kinit\<close>, the call \<open>c\<close> uses the allocator as the kernel
  does. \<^verbatim>\<open>kfree\<close> and \<^verbatim>\<open>addref\<close> are applied to a managed page that is allocated (its
  count is positive), \<^verbatim>\<open>addref\<close> to a count below \<open>2^31 - 1\<close>, and \<^verbatim>\<open>subref\<close> to a managed
  page whose count it does not bring to zero: the last reference is given up with
  \<^verbatim>\<open>kfree\<close>. \<open>kproper_run\<close>: every call of the sequence is proper in the state it is
  made in.
\<close>

fun kproper :: "nat \<Rightarrow> nat \<Rightarrow> kmem \<Rightarrow> kcall \<Rightarrow> bool" where
  "kproper e phystop s Kinit = False"
| "kproper e phystop s Kalloc = True"
| "kproper e phystop s (Kfree pa) = (managed e phystop pa \<and> 0 < ref s (pa div PGSIZE))"
| "kproper e phystop s (Addref pa) =
     (managed e phystop pa \<and> 0 < ref s (pa div PGSIZE) \<and> ref s (pa div PGSIZE) < 2147483647)"
| "kproper e phystop s (Subref pa) = (managed e phystop pa \<and> ref s (pa div PGSIZE) \<noteq> 1)"

fun kproper_run :: "nat \<Rightarrow> nat \<Rightarrow> kcall list \<Rightarrow> kmem \<Rightarrow> bool" where
  "kproper_run e phystop [] s = True"
| "kproper_run e phystop (c # cs) s =
     (kproper e phystop s c \<and> (case kstep e phystop c s of Inr s' \<Rightarrow> kproper_run e phystop cs s' | Inl x \<Rightarrow> True))"

section \<open>The allocator: single calls\<close>

lemma store_le_below: "b < a \<Longrightarrow> store_le m a n v b = m b"
  by (induction n arbitrary: m a v) auto

lemma store_le_above: "a + n \<le> b \<Longrightarrow> store_le m a n v b = m b"
  by (induction n arbitrary: m a v) auto

lemma load_store_le: "v < 256 ^ n \<Longrightarrow> load_le (store_le m a n v) a n = v"
proof (induction n arbitrary: m a v)
  case 0
  then show ?case by simp
next
  case (Suc n)
  have d: "v div 256 < 256 ^ n"
    using Suc.prems by (simp add: less_mult_imp_div_less mult.commute)
  have "store_le (m(a := of_nat (v mod 256))) (Suc a) n (v div 256) a = (of_nat (v mod 256) :: 8 word)"
    by (simp add: store_le_below)
  moreover have "unat (of_nat (v mod 256) :: 8 word) = v mod 256"
    by (simp add: unat_of_nat)
  ultimately show ?case
    using Suc.IH [OF d] by simp
qed

lemma load_le_cong: "(\<And>b. a \<le> b \<Longrightarrow> b < a + n \<Longrightarrow> m b = m' b) \<Longrightarrow> load_le m a n = load_le m' a n"
proof (induction n arbitrary: a)
  case 0
  then show ?case by simp
next
  case (Suc n)
  have "load_le m (Suc a) n = load_le m' (Suc a) n"
    by (rule Suc.IH) (simp add: Suc.prems)
  moreover have "m a = m' a" by (simp add: Suc.prems)
  ultimately show ?case by simp
qed

lemma load_le_bound: "load_le m a n < 256 ^ n"
proof (induction n arbitrary: a)
  case 0
  then show ?case by simp
next
  case (Suc n)
  have "unat (m a) < 256" using unsigned_less [of "m a", where ?'a = nat] by simp
  moreover have "load_le m (Suc a) n < 256 ^ n" by (rule Suc.IH)
  ultimately show ?case by simp
qed

lemma run_next_set: "v < 2 ^ 64 \<Longrightarrow> run_next (set_run_next m r v) r = v"
  using load_store_le [of v 8 m r] by (simp add: run_next_def set_run_next_def)

lemma run_next_cong: "(\<And>b. r \<le> b \<Longrightarrow> b < r + 8 \<Longrightarrow> m b = m' b) \<Longrightarrow> run_next m r = run_next m' r"
  unfolding run_next_def by (rule load_le_cong)

lemma set_run_next_other: "b < r \<or> r + 8 \<le> b \<Longrightarrow> set_run_next m r v b = m b"
  by (auto simp: set_run_next_def store_le_below store_le_above)

lemma memset_in: "dst \<le> a \<Longrightarrow> a < dst + n \<Longrightarrow> memset m dst c n a = c"
  by (simp add: memset_def)

lemma memset_out: "a < dst \<or> dst + n \<le> a \<Longrightarrow> memset m dst c n a = m a"
  by (auto simp: memset_def)

lemma int32_id: "- 2147483648 \<le> x \<Longrightarrow> x < 2147483648 \<Longrightarrow> int32 x = x"
  by (simp add: int32_def signed_of_int signed_take_bit_int_eq_self)

lemma int32_succ: "0 \<le> c \<Longrightarrow> c < 2147483647 \<Longrightarrow> int32 (c + 1) = c + 1"
  by (rule int32_id) simp_all

lemma int32_wraps: "int32 (2147483647 + 1) = - 2147483648"
  by (simp add: int32_def)

lemma int32_range: "- 2147483648 \<le> int32 x \<and> int32 x < 2147483648"
  using sint_ge [of "word_of_int x :: 32 word"] sint_lt [of "word_of_int x :: 32 word"]
  by (simp add: int32_def)

declare freerange_loop.simps [simp del]

lemma getref_simps:
  "pa div PGSIZE < phystop div PGSIZE \<Longrightarrow> getref phystop s pa = Inr (ref s (pa div PGSIZE))"
  "\<not> pa div PGSIZE < phystop div PGSIZE \<Longrightarrow> getref phystop s pa = Inl OutOfBounds"
  by (simp_all add: getref_def)

lemma page_index_in_bounds:
  assumes "pa mod PGSIZE = 0" "pa < phystop" "phystop mod PGSIZE = 0"
  shows "pa div PGSIZE < phystop div PGSIZE"
proof -
  have "pa = (pa div PGSIZE) * PGSIZE" using assms(1) by (simp add: mod_eq_0_iff_dvd)
  moreover have "phystop = (phystop div PGSIZE) * PGSIZE" using assms(3) by (simp add: mod_eq_0_iff_dvd)
  ultimately have "(pa div PGSIZE) * PGSIZE < (phystop div PGSIZE) * PGSIZE"
    using assms(2) by simp
  then show ?thesis by simp
qed

lemma kfree_panic_iff:
  "(\<exists>msg. kfree e phystop pa s = Inl (Panic msg)) = (pa mod PGSIZE \<noteq> 0 \<or> pa < e \<or> phystop \<le> pa)"
  by (auto simp: kfree_def subref_def getref_def split: sum.splits if_splits)

lemma kfree_valid:
  assumes "pa mod PGSIZE = 0" "e \<le> pa" "pa < phystop" "phystop mod PGSIZE = 0"
  shows "\<exists>s'. kfree e phystop pa s = Inr s'
     \<and> ref s' = (ref s)(pa div PGSIZE :=
           (if ref s (pa div PGSIZE) > 0 then ref s (pa div PGSIZE) - 1 else ref s (pa div PGSIZE)))
     \<and> freelist s' = (if ref s' (pa div PGSIZE) = 0 then pa else freelist s)
     \<and> mem s' = (if ref s' (pa div PGSIZE) = 0
                  then set_run_next (memset (mem s) pa 1 PGSIZE) pa (freelist s) else mem s)"
proof -
  have b: "pa div PGSIZE < phystop div PGSIZE"
    using assms by (intro page_index_in_bounds)
  show ?thesis
    using assms(1-3) b by (auto simp: kfree_def subref_def getref_def Let_def fun_eq_iff)
qed

lemma kalloc_nonempty:
  assumes "freelist s \<noteq> 0" "freelist s div PGSIZE < phystop div PGSIZE"
  shows "kalloc phystop s = Inr (freelist s,
     s\<lparr>ref := (ref s)(freelist s div PGSIZE := int32 (ref s (freelist s div PGSIZE) + 1)),
       freelist := run_next (mem s) (freelist s),
       mem := memset (mem s) (freelist s) 5 PGSIZE\<rparr>)"
  using assms by (simp add: kalloc_def addref_def getref_def Let_def)

lemma kalloc_empty: "freelist s = 0 \<Longrightarrow> kalloc phystop s = Inr (0, s)"
  by (simp add: kalloc_def)

lemma kalloc_no_panic: "kalloc phystop s \<noteq> Inl (Panic msg)"
  by (auto simp: kalloc_def addref_def getref_def Let_def split: sum.splits if_splits)

lemma kalloc_null_iff: "(\<exists>s'. kalloc phystop s = Inr (0, s')) = (freelist s = 0)"
  by (auto simp: kalloc_def addref_def getref_def Let_def split: sum.splits if_splits)

lemma kinit_one_page:
  "kinit 4096 8192 (kmem0 m) =
     Inr \<lparr>ref = (\<lambda>i. 0), freelist = 4096, mem = set_run_next (memset m 4096 1 PGSIZE) 4096 0\<rparr>"
proof -
  have r: "PGROUNDUP 4096 = 4096" by (simp add: PGROUNDUP_def PGSIZE_def)
  have k: "kfree 4096 8192 4096 (kmem0 m) =
     Inr \<lparr>ref = (\<lambda>i. 0), freelist = 4096, mem = set_run_next (memset m 4096 1 PGSIZE) 4096 0\<rparr>"
    by (simp add: kfree_def subref_def getref_def kmem0_def) (simp add: PGSIZE_def)
  have l: "freerange_loop 4096 8192 8192 8192 s = Inr s" for s
    by (subst freerange_loop.simps) (simp add: PGSIZE_def)
  have p: "(4096::nat) + PGSIZE = 8192" by (simp add: PGSIZE_def)
  show ?thesis
    unfolding kinit_def freerange_def r
    by (subst freerange_loop.simps) (simp add: k l p)
qed

text \<open>
  C4, as amended. \<^verbatim>\<open>kfree\<close> panics exactly when the address is not page-aligned, below
  \<^verbatim>\<open>end\<close> or at or above \<^verbatim>\<open>PHYSTOP\<close>. On any other address it takes one from the page's
  count when the count is positive and leaves a count of zero at zero. When the
  resulting count is zero the page is filled with the byte 1, its first eight bytes
  then hold the old head of the free list, and the page is the new head; when the
  count stays positive the free list and the memory are unchanged.
\<close>

theorem kfree_spec:
  "((\<exists>msg. kfree e phystop pa s = Inl (Panic msg)) = (pa mod PGSIZE \<noteq> 0 \<or> pa < e \<or> phystop \<le> pa))
   \<and> (pa mod PGSIZE = 0 \<and> e \<le> pa \<and> pa < phystop \<and> phystop mod PGSIZE = 0 \<and> freelist s < 2 ^ 64 \<longrightarrow>
        (\<exists>s'. kfree e phystop pa s = Inr s'
           \<and> ref s' = (ref s)(pa div PGSIZE :=
                 (if ref s (pa div PGSIZE) > 0 then ref s (pa div PGSIZE) - 1 else ref s (pa div PGSIZE)))
           \<and> (if ref s' (pa div PGSIZE) = 0
                then freelist s' = pa \<and> run_next (mem s') pa = freelist s
                   \<and> mem s' = set_run_next (memset (mem s) pa 1 PGSIZE) pa (freelist s)
                   \<and> (\<forall>a. pa + 8 \<le> a \<and> a < pa + PGSIZE \<longrightarrow> mem s' a = 1)
                else freelist s' = freelist s \<and> mem s' = mem s)))"
proof (intro conjI impI)
  show "(\<exists>msg. kfree e phystop pa s = Inl (Panic msg)) = (pa mod PGSIZE \<noteq> 0 \<or> pa < e \<or> phystop \<le> pa)"
    by (rule kfree_panic_iff)
next
  assume a: "pa mod PGSIZE = 0 \<and> e \<le> pa \<and> pa < phystop \<and> phystop mod PGSIZE = 0 \<and> freelist s < 2 ^ 64"
  have v: "pa mod PGSIZE = 0" "e \<le> pa" "pa < phystop" "phystop mod PGSIZE = 0" using a by simp_all
  obtain s' where k: "kfree e phystop pa s = Inr s'"
    and r: "ref s' = (ref s)(pa div PGSIZE :=
           (if ref s (pa div PGSIZE) > 0 then ref s (pa div PGSIZE) - 1 else ref s (pa div PGSIZE)))"
    and f: "freelist s' = (if ref s' (pa div PGSIZE) = 0 then pa else freelist s)"
    and m: "mem s' = (if ref s' (pa div PGSIZE) = 0
                  then set_run_next (memset (mem s) pa 1 PGSIZE) pa (freelist s) else mem s)"
    using kfree_valid [OF v, of s] by (elim exE conjE) (rule that)
  have fill: "set_run_next (memset (mem s) pa 1 PGSIZE) pa (freelist s) a = 1"
    if "pa + 8 \<le> a \<and> a < pa + PGSIZE" for a
    using that by (simp add: set_run_next_other memset_in)
  have nxt: "run_next (set_run_next (memset (mem s) pa 1 PGSIZE) pa (freelist s)) pa = freelist s"
    using a by (simp add: run_next_set)
  show "\<exists>s'. kfree e phystop pa s = Inr s'
           \<and> ref s' = (ref s)(pa div PGSIZE :=
                 (if ref s (pa div PGSIZE) > 0 then ref s (pa div PGSIZE) - 1 else ref s (pa div PGSIZE)))
           \<and> (if ref s' (pa div PGSIZE) = 0
                then freelist s' = pa \<and> run_next (mem s') pa = freelist s
                   \<and> mem s' = set_run_next (memset (mem s) pa 1 PGSIZE) pa (freelist s)
                   \<and> (\<forall>a. pa + 8 \<le> a \<and> a < pa + PGSIZE \<longrightarrow> mem s' a = 1)
                else freelist s' = freelist s \<and> mem s' = mem s)"
  proof (intro exI conjI)
    show "kfree e phystop pa s = Inr s'" by (rule k)
    show "ref s' = (ref s)(pa div PGSIZE :=
                 (if ref s (pa div PGSIZE) > 0 then ref s (pa div PGSIZE) - 1 else ref s (pa div PGSIZE)))"
      by (rule r)
    show "if ref s' (pa div PGSIZE) = 0
                then freelist s' = pa \<and> run_next (mem s') pa = freelist s
                   \<and> mem s' = set_run_next (memset (mem s) pa 1 PGSIZE) pa (freelist s)
                   \<and> (\<forall>a. pa + 8 \<le> a \<and> a < pa + PGSIZE \<longrightarrow> mem s' a = 1)
                else freelist s' = freelist s \<and> mem s' = mem s"
      using f m fill nxt by simp
  qed
qed

theorem kfree_spec_witness:
  "(4096::nat) mod PGSIZE = 0 \<and> (4096::nat) \<le> 4096 \<and> (4096::nat) < 12288 \<and> (12288::nat) mod PGSIZE = 0
   \<and> freelist \<lparr>ref = (\<lambda>i. 2), freelist = 8192, mem = (\<lambda>a. 0)\<rparr> < 2 ^ 64
   \<and> (\<exists>s'. kfree 4096 12288 4096 \<lparr>ref = (\<lambda>i. 2), freelist = 8192, mem = (\<lambda>a. 0)\<rparr> = Inr s'
         \<and> ref s' (4096 div PGSIZE) = 1 \<and> freelist s' = 8192 \<and> mem s' = (\<lambda>a. 0))"
  using kfree_spec [of 4096 12288 4096 "\<lparr>ref = (\<lambda>i. 2), freelist = 8192, mem = (\<lambda>a. 0)\<rparr>"]
  by (auto simp: PGSIZE_def)

text \<open>
  The claim C4 as written says the count is decremented on every valid address. On a
  page whose count is zero, as every page is when \<^verbatim>\<open>kinit\<close> frees it, the count stays
  zero and the page is pushed.
\<close>

theorem kfree_decrement_counterexample:
  "ref (kmem0 (\<lambda>a. 0)) (4096 div PGSIZE) = 0 \<and>
   (case kfree 4096 8192 4096 (kmem0 (\<lambda>a. 0)) of
      Inl x \<Rightarrow> False
    | Inr s' \<Rightarrow> ref s' (4096 div PGSIZE) = 0 \<and> freelist s' = 4096)"
  by (simp add: kfree_def subref_def getref_def kmem0_def) (simp add: PGSIZE_def)

section \<open>The allocator: the free list\<close>

lemma PGROUNDUP_ge: "e \<le> PGROUNDUP e"
proof -
  have "(e + 4095) div 4096 * 4096 + (e + 4095) mod 4096 = e + 4095" by (rule div_mult_mod_eq)
  moreover have "(e + 4095) mod 4096 < 4096" by simp
  ultimately have "e \<le> (e + 4095) div 4096 * 4096" by linarith
  then show ?thesis by (simp add: PGROUNDUP_def PGSIZE_def)
qed

lemma PGROUNDUP_aligned: "PGROUNDUP e mod PGSIZE = 0"
  by (simp add: PGROUNDUP_def)

lemma PGROUNDUP_least:
  assumes "p mod PGSIZE = 0" "e \<le> p"
  shows "PGROUNDUP e \<le> p"
proof -
  from assms(1) obtain k where k: "p = PGSIZE * k" by (auto simp: mod_eq_0_iff_dvd)
  have "(e + (PGSIZE - 1)) div PGSIZE \<le> (p + (PGSIZE - 1)) div PGSIZE"
    using assms(2) by (intro div_le_mono) simp
  also have "(p + (PGSIZE - 1)) div PGSIZE = k"
    unfolding k by (simp add: PGSIZE_def)
  finally have "(e + (PGSIZE - 1)) div PGSIZE * PGSIZE \<le> k * PGSIZE" by (rule mult_le_mono1)
  then show ?thesis by (simp add: PGROUNDUP_def k mult.commute PGSIZE_def)
qed

lemma pages_apart:
  assumes "p mod PGSIZE = 0" "q mod PGSIZE = 0" "p \<noteq> q"
  shows "p + PGSIZE \<le> q \<or> q + PGSIZE \<le> p"
proof -
  from assms(1) obtain a where a: "p = PGSIZE * a" by (auto simp: mod_eq_0_iff_dvd)
  from assms(2) obtain b where b: "q = PGSIZE * b" by (auto simp: mod_eq_0_iff_dvd)
  from assms(3) a b have "a < b \<or> b < a" by auto
  then show ?thesis
  proof
    assume "a < b"
    then have "PGSIZE * (a + 1) \<le> PGSIZE * b" by (intro mult_le_mono2) simp
    then show ?thesis by (simp add: a b)
  next
    assume "b < a"
    then have "PGSIZE * (b + 1) \<le> PGSIZE * a" by (intro mult_le_mono2) simp
    then show ?thesis by (simp add: a b)
  qed
qed

lemma page_index_inj:
  assumes "p mod PGSIZE = 0" "q mod PGSIZE = 0" "p div PGSIZE = q div PGSIZE"
  shows "p = q"
proof -
  have "p = p div PGSIZE * PGSIZE + p mod PGSIZE" "q = q div PGSIZE * PGSIZE + q mod PGSIZE"
    by simp_all
  with assms show ?thesis by simp
qed

lemma managed_facts:
  assumes "managed e phystop p" "0 < e" "phystop mod PGSIZE = 0"
  shows "p mod PGSIZE = 0" "e \<le> p" "p < phystop" "p \<noteq> 0" "p div PGSIZE < phystop div PGSIZE"
proof -
  from assms(1) show a: "p mod PGSIZE = 0" by (simp add: managed_def)
  from assms(1) PGROUNDUP_ge [of e] show b: "e \<le> p" by (simp add: managed_def)
  from assms(1) show c: "p < phystop" by (simp add: managed_def PGSIZE_def)
  from b assms(2) show "p \<noteq> 0" by simp
  from a c assms(3) show "p div PGSIZE < phystop div PGSIZE" by (rule page_index_in_bounds)
qed

lemma flist_frame:
  assumes "flist m h ps" "\<And>p b. p \<in> set ps \<Longrightarrow> p \<le> b \<Longrightarrow> b < p + 8 \<Longrightarrow> m' b = m b"
  shows "flist m' h ps"
  using assms
proof (induction ps arbitrary: h)
  case Nil
  then show ?case by simp
next
  case (Cons p ps)
  have "run_next m' p = run_next m p"
    using Cons.prems(2) [of p] by (intro run_next_cong) simp
  moreover have "flist m' (run_next m p) ps"
    using Cons.prems by (intro Cons.IH) auto
  ultimately show ?case using Cons.prems(1) by simp
qed

lemma flist_head: "flist m h ps \<Longrightarrow> h = (case ps of [] \<Rightarrow> 0 | p # _ \<Rightarrow> p)"
  by (cases ps) auto

lemma on_freelist_of_list:
  assumes "flist (mem s) h ps" "h \<noteq> 0 \<Longrightarrow> on_freelist s h" "p \<in> set ps"
  shows "on_freelist s p"
  using assms
proof (induction ps arbitrary: h)
  case Nil
  then show ?case by simp
next
  case (Cons q qs)
  then have q: "h = q" "q \<noteq> 0" and r: "flist (mem s) (run_next (mem s) q) qs" by simp_all
  with Cons.prems(2) have oq: "on_freelist s q" by simp
  show ?case
  proof (cases "p = q")
    case True
    with oq show ?thesis by simp
  next
    case False
    with Cons.prems(3) have "p \<in> set qs" by simp
    moreover have "on_freelist s (run_next (mem s) q)" if "run_next (mem s) q \<noteq> 0"
      using oq that by (rule on_freelist.step)
    ultimately show ?thesis using Cons.IH [OF r] by simp
  qed
qed

lemma flist_next_in:
  "flist m h ps \<Longrightarrow> p \<in> set ps \<Longrightarrow> run_next m p \<noteq> 0 \<Longrightarrow> run_next m p \<in> set ps"
proof (induction ps arbitrary: h)
  case Nil
  then show ?case by simp
next
  case (Cons q qs)
  then have r: "flist m (run_next m q) qs" by simp
  show ?case
  proof (cases "p = q")
    case True
    with r Cons.prems(3) show ?thesis by (cases qs) auto
  next
    case False
    with Cons.prems have "p \<in> set qs" by simp
    from Cons.IH [OF r this Cons.prems(3)] show ?thesis by simp
  qed
qed

lemma list_of_on_freelist:
  assumes "on_freelist s p" "flist (mem s) (freelist s) ps"
  shows "p \<in> set ps"
  using assms
proof (induction rule: on_freelist.induct)
  case head
  then show ?case by (cases ps) auto
next
  case (step p)
  then show ?case using flist_next_in by blast
qed

lemma on_freelist_iff:
  "flist (mem s) (freelist s) ps \<Longrightarrow> on_freelist s p = (p \<in> set ps)"
  using on_freelist_of_list [of s "freelist s" ps p] list_of_on_freelist [of s p ps]
  by (auto intro: on_freelist.head)

lemma free_pages_head_bound:
  assumes "free_pages e phystop s ps" "phystop \<le> 2 ^ 64"
  shows "freelist s < 2 ^ 64"
proof (cases ps)
  case Nil
  with assms(1) show ?thesis by (simp add: free_pages_def)
next
  case (Cons p qs)
  with assms(1) have "freelist s = p" "managed e phystop p" by (simp_all add: free_pages_def)
  then have "freelist s < phystop" by (simp add: managed_def PGSIZE_def)
  with assms(2) show ?thesis by simp
qed

lemma kfree_push:
  assumes lay: "0 < e" "phystop mod PGSIZE = 0" "phystop \<le> 2 ^ 64"
      and fp: "free_pages e phystop s ps" and pa: "managed e phystop pa" "pa \<notin> set ps"
  shows "\<exists>s'. kfree e phystop pa s = Inr s'
     \<and> ref s' = (ref s)(pa div PGSIZE :=
           (if ref s (pa div PGSIZE) > 0 then ref s (pa div PGSIZE) - 1 else ref s (pa div PGSIZE)))
     \<and> free_pages e phystop s' (if ref s' (pa div PGSIZE) = 0 then pa # ps else ps)"
proof -
  note m = managed_facts [OF pa(1) lay(1,2)]
  from kfree_valid [OF m(1,2,3) lay(2), of s]
  obtain s' where k: "kfree e phystop pa s = Inr s'"
    and r: "ref s' = (ref s)(pa div PGSIZE :=
           (if ref s (pa div PGSIZE) > 0 then ref s (pa div PGSIZE) - 1 else ref s (pa div PGSIZE)))"
    and f: "freelist s' = (if ref s' (pa div PGSIZE) = 0 then pa else freelist s)"
    and mm: "mem s' = (if ref s' (pa div PGSIZE) = 0
                  then set_run_next (memset (mem s) pa 1 PGSIZE) pa (freelist s) else mem s)"
    by (elim exE conjE) (rule that)
  have fp': "free_pages e phystop s' (if ref s' (pa div PGSIZE) = 0 then pa # ps else ps)"
  proof (cases "ref s' (pa div PGSIZE) = 0")
    case False
    with f mm fp show ?thesis by (simp add: free_pages_def)
  next
    case True
    let ?m = "set_run_next (memset (mem s) pa 1 PGSIZE) pa (freelist s)"
    have same: "?m b = mem s b" if "p \<in> set ps" "p \<le> b" "b < p + 8" for p b
    proof -
      from that(1) fp have "managed e phystop p" by (simp add: free_pages_def)
      then have "p mod PGSIZE = 0" by (simp add: managed_def)
      moreover from that(1) pa(2) have "p \<noteq> pa" by auto
      ultimately have "p + PGSIZE \<le> pa \<or> pa + PGSIZE \<le> p" using m(1) by (intro pages_apart)
      with that(2,3) have o: "b < pa \<or> pa + PGSIZE \<le> b" by (auto simp: PGSIZE_def)
      then have "b < pa \<or> pa + 8 \<le> b" by (auto simp: PGSIZE_def)
      then have "?m b = memset (mem s) pa 1 PGSIZE b" by (rule set_run_next_other)
      also have "\<dots> = mem s b" using o by (rule memset_out)
      finally show ?thesis .
    qed
    have "flist (mem s) (freelist s) ps" using fp by (simp add: free_pages_def)
    then have fl: "flist ?m (freelist s) ps" by (rule flist_frame) (rule same)
    have "run_next ?m pa = freelist s"
      using free_pages_head_bound [OF fp lay(3)] by (rule run_next_set)
    with fl m(4) have "flist ?m pa (pa # ps)" by simp
    with True f mm fp pa show ?thesis by (simp add: free_pages_def)
  qed
  from k r fp' show ?thesis by blast
qed

lemma kalloc_pop:
  assumes lay: "0 < e" "phystop mod PGSIZE = 0"
      and fp: "free_pages e phystop s (r # ps)"
  shows "\<exists>s'. kalloc phystop s = Inr (r, s')
     \<and> ref s' = (ref s)(r div PGSIZE := int32 (ref s (r div PGSIZE) + 1))
     \<and> freelist s' = run_next (mem s) r
     \<and> mem s' = memset (mem s) r 5 PGSIZE
     \<and> free_pages e phystop s' ps"
proof -
  from fp have h: "freelist s = r" "r \<noteq> 0" and fl: "flist (mem s) (run_next (mem s) r) ps"
    and d: "r \<notin> set ps" "distinct ps" and mg: "managed e phystop r" "\<forall>p\<in>set ps. managed e phystop p"
    by (simp_all add: free_pages_def)
  note m = managed_facts [OF mg(1) lay]
  let ?s' = "s\<lparr>ref := (ref s)(r div PGSIZE := int32 (ref s (r div PGSIZE) + 1)),
       freelist := run_next (mem s) r, mem := memset (mem s) r 5 PGSIZE\<rparr>"
  have k: "kalloc phystop s = Inr (r, ?s')"
    using kalloc_nonempty [of s phystop] h m(5) by simp
  have same: "memset (mem s) r 5 PGSIZE b = mem s b" if "p \<in> set ps" "p \<le> b" "b < p + 8" for p b
  proof -
    from that(1) mg(2) have "managed e phystop p" by simp
    then have "p mod PGSIZE = 0" by (simp add: managed_def)
    moreover from that(1) d(1) have "p \<noteq> r" by auto
    ultimately have "p + PGSIZE \<le> r \<or> r + PGSIZE \<le> p" using m(1) by (intro pages_apart)
    with that(2,3) have "b < r \<or> r + PGSIZE \<le> b" by (auto simp: PGSIZE_def)
    then show ?thesis by (rule memset_out)
  qed
  have "flist (memset (mem s) r 5 PGSIZE) (run_next (mem s) r) ps"
    using fl by (rule flist_frame) (rule same)
  with d mg have "free_pages e phystop ?s' ps" by (simp add: free_pages_def)
  with k show ?thesis by (intro exI [of _ ?s']) simp
qed

lemma kalloc_empty_list:
  "free_pages e phystop s [] \<Longrightarrow> kalloc phystop s = Inr (0, s)"
  by (simp add: free_pages_def kalloc_empty)

lemma managed_below_step:
  assumes "p mod PGSIZE = 0"
  shows "{q. managed e phystop q \<and> q < p + PGSIZE} = {q. managed e phystop q \<and> q < p} \<union> {q. managed e phystop q \<and> q = p}"
proof -
  have "q < p \<or> q = p" if "managed e phystop q" "q < p + PGSIZE" for q
  proof (cases "q = p")
    case False
    from that(1) have "q mod PGSIZE = 0" by (simp add: managed_def)
    with assms False have "q + PGSIZE \<le> p \<or> p + PGSIZE \<le> q" by (intro pages_apart) auto
    with that(2) show ?thesis by (auto simp: PGSIZE_def)
  qed simp
  then show ?thesis by (auto simp: PGSIZE_def)
qed

lemma freerange_loop_inv:
  "0 < e \<Longrightarrow> phystop mod PGSIZE = 0 \<Longrightarrow> phystop \<le> 2 ^ 64 \<Longrightarrow>
     pa_end = phystop \<Longrightarrow> p mod PGSIZE = 0 \<Longrightarrow> PGROUNDUP e \<le> p \<Longrightarrow>
     free_pages e phystop s ps \<Longrightarrow> set ps = {q. managed e phystop q \<and> q < p} \<Longrightarrow> \<forall>i. ref s i = 0 \<Longrightarrow>
     \<exists>s' ps'. freerange_loop e phystop p pa_end s = Inr s' \<and> free_pages e phystop s' ps'
        \<and> set ps' = {q. managed e phystop q} \<and> (\<forall>i. ref s' i = 0)"
proof (induction e phystop p pa_end s arbitrary: ps rule: freerange_loop.induct)
  case (1 e phystop p pa_end s)
  note lay = "1.prems"(1-3)
  note pe = "1.prems"(4) and al = "1.prems"(5) and ge = "1.prems"(6)
    and fp0 = "1.prems"(7) and st = "1.prems"(8) and rz = "1.prems"(9)
  show ?case
  proof (cases "p + PGSIZE \<le> pa_end")
    case False
    have "q < p" if "managed e phystop q" for q
      using that False pe by (simp add: managed_def)
    with st have "set ps = {q. managed e phystop q}" by auto
    with False fp0 rz show ?thesis
      by (subst freerange_loop.simps) auto
  next
    case True
    with pe al ge have mp: "managed e phystop p" by (simp add: managed_def)
    from st have np: "p \<notin> set ps" by simp
    from kfree_push [OF lay fp0 mp np] rz
    obtain s' where k: "kfree e phystop p s = Inr s'" and r: "\<forall>i. ref s' i = 0"
      and fp: "free_pages e phystop s' (p # ps)"
      by (auto simp: fun_upd_idem)
    have a: "(p + PGSIZE) mod PGSIZE = 0" using al by simp
    have b: "PGROUNDUP e \<le> p + PGSIZE" using ge by simp
    have c: "set (p # ps) = {q. managed e phystop q \<and> q < p + PGSIZE}"
      unfolding managed_below_step [OF al] using st mp by auto
    from "1.IH" [OF True k lay pe a b fp c r]
    obtain s'' ps' where "freerange_loop e phystop (p + PGSIZE) pa_end s' = Inr s''"
      "free_pages e phystop s'' ps'" "set ps' = {q. managed e phystop q}" "\<forall>i. ref s'' i = 0"
      by blast
    with True k show ?thesis
      by (subst freerange_loop.simps) auto
  qed
qed

lemma kinit_kinv:
  assumes lay: "0 < e" "phystop mod PGSIZE = 0" "phystop \<le> 2 ^ 64"
  shows "\<exists>s0. kinit e phystop (kmem0 m) = Inr s0 \<and> kinv e phystop s0 \<and> (\<forall>i. ref s0 i = 0)"
proof -
  have fp: "free_pages e phystop (kmem0 m) []" by (simp add: free_pages_def kmem0_def)
  have em: "set [] = {q. managed e phystop q \<and> q < PGROUNDUP e}" by (auto simp: managed_def)
  have z: "\<forall>i. ref (kmem0 m) i = 0" by (simp add: kmem0_def)
  from freerange_loop_inv [OF lay refl PGROUNDUP_aligned order_refl fp em z]
  obtain s' ps' where k: "freerange_loop e phystop (PGROUNDUP e) phystop (kmem0 m) = Inr s'"
    and f: "free_pages e phystop s' ps'" "set ps' = {q. managed e phystop q}" "\<forall>i. ref s' i = 0"
    by blast
  from f have "kinv e phystop s'" unfolding kinv_def by (intro exI [of _ ps']) simp
  with k f(3) show ?thesis by (simp add: kinit_def freerange_def)
qed

lemma kfree_nonneg:
  assumes "\<forall>i. 0 \<le> ref s i" "kfree e phystop pa s = Inr s'"
  shows "\<forall>i. 0 \<le> ref s' i"
  using assms by (auto simp: kfree_def subref_def getref_def split: if_splits)

lemma freerange_loop_nonneg:
  "\<forall>i. 0 \<le> ref s i \<Longrightarrow> freerange_loop e phystop p pa_end s = Inr s' \<Longrightarrow> \<forall>i. 0 \<le> ref s' i"
proof (induction e phystop p pa_end s rule: freerange_loop.induct)
  case (1 e phystop p pa_end s)
  show ?case
  proof (cases "p + PGSIZE \<le> pa_end")
    case False
    with "1.prems" show ?thesis by (subst (asm) freerange_loop.simps) simp
  next
    case True
    with "1.prems"(2) obtain s1 where k: "kfree e phystop p s = Inr s1"
      and l: "freerange_loop e phystop (p + PGSIZE) pa_end s1 = Inr s'"
      by (subst (asm) freerange_loop.simps) (auto split: sum.splits)
    from kfree_nonneg [OF "1.prems"(1) k] have "\<forall>i. 0 \<le> ref s1 i" .
    from "1.IH" [OF True k this l] show ?thesis .
  qed
qed

lemma addref_nonneg:
  assumes "\<forall>i. 0 \<le> ref s i" "ref s (pa div PGSIZE) < 2147483647" "addref phystop pa s = Inr s'"
  shows "\<forall>i. 0 \<le> ref s' i"
proof -
  have "0 \<le> ref s (pa div PGSIZE)" using assms(1) by simp
  then have "int32 (ref s (pa div PGSIZE) + 1) = ref s (pa div PGSIZE) + 1"
    using assms(2) by (rule int32_succ)
  with assms(1,3) show ?thesis
    by (auto simp: addref_def getref_def split: if_splits)
qed

lemma kstep_nonneg:
  assumes "\<forall>i. 0 \<le> ref s i" "kbounded s c" "kstep e phystop c s = Inr s'"
  shows "\<forall>i. 0 \<le> ref s' i"
proof (cases c)
  case Kinit
  with assms show ?thesis
    using freerange_loop_nonneg [of s e phystop "PGROUNDUP e" phystop s']
    by (simp add: kstep_def kinit_def freerange_def)
next
  case Kalloc
  show ?thesis
  proof (cases "freelist s = 0")
    case True
    with Kalloc assms show ?thesis by (simp add: kstep_def kalloc_def)
  next
    case False
    with Kalloc assms(2) have b: "ref s (freelist s div PGSIZE) < 2147483647" by simp
    from False Kalloc assms(3) obtain s1 where a: "addref phystop (freelist s) s = Inr s1"
      and r: "ref s' = ref s1"
      by (auto simp: kstep_def kalloc_def Let_def split: sum.splits)
    from addref_nonneg [OF assms(1) b a] r show ?thesis by simp
  qed
next
  case (Kfree pa)
  with assms kfree_nonneg [of s e phystop pa s'] show ?thesis by (simp add: kstep_def)
next
  case (Addref pa)
  with assms addref_nonneg [of s pa phystop s'] show ?thesis by (simp add: kstep_def)
next
  case (Subref pa)
  with assms show ?thesis by (auto simp: kstep_def subref_def getref_def split: if_splits)
qed

lemma krun_nonneg:
  "\<forall>i. 0 \<le> ref s i \<Longrightarrow> kbounded_run e phystop cs s \<Longrightarrow> krun e phystop cs s = Inr s' \<Longrightarrow>
     \<forall>i. 0 \<le> ref s' i"
proof (induction cs arbitrary: s)
  case Nil
  then show ?case by simp
next
  case (Cons c cs)
  from Cons.prems(3) obtain s1 where k: "kstep e phystop c s = Inr s1" and r: "krun e phystop cs s1 = Inr s'"
    by (auto split: sum.splits)
  from Cons.prems(2) k have b: "kbounded s c" "kbounded_run e phystop cs s1" by simp_all
  from kstep_nonneg [OF Cons.prems(1) b(1) k] have "\<forall>i. 0 \<le> ref s1 i" .
  from Cons.IH [OF this b(2) r] show ?case .
qed

text \<open>
  The counts of the model are the counts of the C program: from the zeroed state no
  sequence of calls leads to a count outside the range of \<^verbatim>\<open>int\<close>.
\<close>

lemma addref_in_int:
  assumes "ref_in_int s" "addref phystop pa s = Inr s'"
  shows "ref_in_int s'"
  using assms int32_range [of "ref s (pa div PGSIZE) + 1"]
  by (auto simp: addref_def getref_def ref_in_int_def split: if_splits)

lemma ref_in_int_dec:
  assumes "ref_in_int s" "0 < ref s j" "ref s' = (ref s)(j := ref s j - 1)"
  shows "ref_in_int s'"
  unfolding ref_in_int_def
proof
  fix i
  from assms(1) have "- 2147483648 \<le> ref s i \<and> ref s i < 2147483648"
    "- 2147483648 \<le> ref s j \<and> ref s j < 2147483648"
    by (simp_all add: ref_in_int_def)
  with assms(2,3) show "- 2147483648 \<le> ref s' i \<and> ref s' i < 2147483648"
    by (cases "i = j") simp_all
qed

lemma subref_in_int:
  assumes "ref_in_int s" "subref phystop pa s = Inr s'"
  shows "ref_in_int s'"
proof (cases "0 < ref s (pa div PGSIZE)")
  case False
  with assms show ?thesis by (auto simp: subref_def getref_def split: if_splits)
next
  case True
  with assms(2) have "ref s' = (ref s)(pa div PGSIZE := ref s (pa div PGSIZE) - 1)"
    by (auto simp: subref_def getref_def split: if_splits)
  with assms(1) True show ?thesis by (rule ref_in_int_dec)
qed

lemma kfree_in_int:
  assumes "ref_in_int s" "kfree e phystop pa s = Inr s'"
  shows "ref_in_int s'"
proof -
  from assms(2) obtain s1 where a: "subref phystop pa s = Inr s1" and r: "ref s' = ref s1"
    by (auto simp: kfree_def split: if_splits sum.splits)
  from subref_in_int [OF assms(1) a] r show ?thesis by (simp add: ref_in_int_def)
qed

lemma freerange_loop_in_int:
  "ref_in_int s \<Longrightarrow> freerange_loop e phystop p pa_end s = Inr s' \<Longrightarrow> ref_in_int s'"
proof (induction e phystop p pa_end s rule: freerange_loop.induct)
  case (1 e phystop p pa_end s)
  show ?case
  proof (cases "p + PGSIZE \<le> pa_end")
    case False
    with "1.prems" show ?thesis by (subst (asm) freerange_loop.simps) simp
  next
    case True
    with "1.prems"(2) obtain s1 where k: "kfree e phystop p s = Inr s1"
      and l: "freerange_loop e phystop (p + PGSIZE) pa_end s1 = Inr s'"
      by (subst (asm) freerange_loop.simps) (auto split: sum.splits)
    from kfree_in_int [OF "1.prems"(1) k] have "ref_in_int s1" .
    from "1.IH" [OF True k this l] show ?thesis .
  qed
qed

lemma kstep_in_int:
  assumes "ref_in_int s" "kstep e phystop c s = Inr s'"
  shows "ref_in_int s'"
proof (cases c)
  case Kinit
  with assms show ?thesis
    using freerange_loop_in_int [of s e phystop "PGROUNDUP e" phystop s']
    by (simp add: kstep_def kinit_def freerange_def)
next
  case Kalloc
  show ?thesis
  proof (cases "freelist s = 0")
    case True
    with Kalloc assms show ?thesis by (simp add: kstep_def kalloc_def)
  next
    case False
    with Kalloc assms(2) obtain s1 where a: "addref phystop (freelist s) s = Inr s1"
      and r: "ref s' = ref s1"
      by (auto simp: kstep_def kalloc_def Let_def split: sum.splits)
    from addref_in_int [OF assms(1) a] r show ?thesis by (simp add: ref_in_int_def)
  qed
next
  case (Kfree pa)
  with assms kfree_in_int [of s e phystop pa s'] show ?thesis by (simp add: kstep_def)
next
  case (Addref pa)
  with assms addref_in_int [of s phystop pa s'] show ?thesis by (simp add: kstep_def)
next
  case (Subref pa)
  with assms subref_in_int [of s phystop pa s'] show ?thesis by (simp add: kstep_def)
qed

lemma krun_in_int:
  "ref_in_int s \<Longrightarrow> krun e phystop cs s = Inr s' \<Longrightarrow> ref_in_int s'"
proof (induction cs arbitrary: s)
  case Nil
  then show ?case by simp
next
  case (Cons c cs)
  from Cons.prems(2) obtain s1 where k: "kstep e phystop c s = Inr s1" and r: "krun e phystop cs s1 = Inr s'"
    by (auto split: sum.splits)
  from kstep_in_int [OF Cons.prems(1) k] have "ref_in_int s1" .
  from Cons.IH [OF this r] show ?case .
qed

lemma krun_in_int_zeroed: "krun e phystop cs (kmem0 m) = Inr s \<Longrightarrow> ref_in_int s"
  by (rule krun_in_int [of "kmem0 m"]) (simp_all add: ref_in_int_def kmem0_def)

lemma kalloc_kinv:
  assumes lay: "0 < e" "phystop mod PGSIZE = 0"
      and inv: "kinv e phystop s" and ne: "freelist s \<noteq> 0"
  shows "\<exists>s'. kalloc phystop s = Inr (freelist s, s')
     \<and> managed e phystop (freelist s)
     \<and> ref s' = (ref s)(freelist s div PGSIZE := 1)
     \<and> freelist s' = run_next (mem s) (freelist s)
     \<and> mem s' = memset (mem s) (freelist s) 5 PGSIZE
     \<and> kinv e phystop s'"
proof -
  from inv obtain ps where fp: "free_pages e phystop s ps"
    and iff: "\<forall>p. managed e phystop p \<longrightarrow> (p \<in> set ps) = (ref s (p div PGSIZE) = 0)"
    and nn: "\<forall>i. 0 \<le> ref s i"
    by (auto simp: kinv_def)
  have idx: "p div PGSIZE \<noteq> q div PGSIZE" if "managed e phystop p" "managed e phystop q" "p \<noteq> q" for p q
    using that page_index_inj [of p q] by (auto simp: managed_def)
  from fp ne obtain r qs where ps: "ps = r # qs" by (cases ps) (simp_all add: free_pages_def)
  with fp have fr: "free_pages e phystop s (r # qs)" by simp
  then have h: "freelist s = r" and mr: "managed e phystop r" and rq: "r \<notin> set qs"
    by (simp_all add: free_pages_def)
  from iff mr ps have r0: "ref s (r div PGSIZE) = 0" by auto
  have one: "int32 (ref s (r div PGSIZE) + 1) = 1" using int32_succ [of 0] r0 by simp
  from kalloc_pop [OF lay fr]
  obtain s' where k: "kalloc phystop s = Inr (r, s')"
    and rf: "ref s' = (ref s)(r div PGSIZE := 1)"
    and fl: "freelist s' = run_next (mem s) r"
    and mm: "mem s' = memset (mem s) r 5 PGSIZE"
    and fp': "free_pages e phystop s' qs"
    unfolding one by blast
  have "(p \<in> set qs) = (ref s' (p div PGSIZE) = 0)" if "managed e phystop p" for p
  proof (cases "p = r")
    case True
    with rq rf show ?thesis by simp
  next
    case False
    with idx [OF that mr] rf iff that ps show ?thesis by auto
  qed
  moreover have "\<forall>i. 0 \<le> ref s' i" using nn rf by simp
  ultimately have "kinv e phystop s'" using fp' unfolding kinv_def by blast
  with k rf fl mm mr h show ?thesis by simp
qed

lemma kstep_kinv:
  assumes lay: "0 < e" "phystop mod PGSIZE = 0" "phystop \<le> 2 ^ 64"
      and inv: "kinv e phystop s" and pr: "kproper e phystop s c"
  shows "\<exists>s'. kstep e phystop c s = Inr s' \<and> kinv e phystop s'"
proof -
  from inv obtain ps where fp: "free_pages e phystop s ps"
    and iff: "\<forall>p. managed e phystop p \<longrightarrow> (p \<in> set ps) = (ref s (p div PGSIZE) = 0)"
    and nn: "\<forall>i. 0 \<le> ref s i"
    by (auto simp: kinv_def)
  have idx: "p div PGSIZE \<noteq> q div PGSIZE" if "managed e phystop p" "managed e phystop q" "p \<noteq> q" for p q
    using that page_index_inj [of p q] by (auto simp: managed_def)
  show ?thesis
  proof (cases c)
    case Kinit
    with pr show ?thesis by simp
  next
    case Kalloc
    show ?thesis
    proof (cases "freelist s = 0")
      case True
      then have "kalloc phystop s = Inr (0, s)" by (rule kalloc_empty)
      with Kalloc inv show ?thesis by (simp add: kstep_def)
    next
      case False
      from kalloc_kinv [OF lay(1,2) inv False]
      obtain s' where "kalloc phystop s = Inr (freelist s, s')" "kinv e phystop s'" by blast
      with Kalloc show ?thesis by (simp add: kstep_def)
    qed
  next
    case (Kfree pa)
    with pr have mp: "managed e phystop pa" and pos: "0 < ref s (pa div PGSIZE)" by simp_all
    with iff have np: "pa \<notin> set ps" by simp
    from kfree_push [OF lay fp mp np] pos
    obtain s' where k: "kfree e phystop pa s = Inr s'"
      and rf: "ref s' = (ref s)(pa div PGSIZE := ref s (pa div PGSIZE) - 1)"
      and fp': "free_pages e phystop s' (if ref s' (pa div PGSIZE) = 0 then pa # ps else ps)"
      by auto
    have "(p \<in> set (if ref s' (pa div PGSIZE) = 0 then pa # ps else ps)) = (ref s' (p div PGSIZE) = 0)"
      if "managed e phystop p" for p
    proof (cases "p = pa")
      case True
      with np show ?thesis by simp
    next
      case False
      with idx [OF that mp] rf iff that show ?thesis by simp
    qed
    moreover have "\<forall>i. 0 \<le> ref s' i" using nn rf pos by simp
    ultimately have "kinv e phystop s'" using fp' unfolding kinv_def by blast
    with k Kfree show ?thesis by (simp add: kstep_def)
  next
    case (Addref pa)
    with pr have mp: "managed e phystop pa" and pos: "0 < ref s (pa div PGSIZE)"
      and bd: "ref s (pa div PGSIZE) < 2147483647" by simp_all
    note m = managed_facts [OF mp lay(1,2)]
    let ?s' = "s\<lparr>ref := (ref s)(pa div PGSIZE := ref s (pa div PGSIZE) + 1)\<rparr>"
    have "int32 (ref s (pa div PGSIZE) + 1) = ref s (pa div PGSIZE) + 1"
      using pos bd by (intro int32_succ) simp_all
    then have k: "addref phystop pa s = Inr ?s'" using m(5) by (simp add: addref_def getref_def)
    have "free_pages e phystop ?s' ps" using fp by (simp add: free_pages_def)
    moreover have "(p \<in> set ps) = (ref ?s' (p div PGSIZE) = 0)" if "managed e phystop p" for p
    proof (cases "p = pa")
      case True
      with iff mp pos show ?thesis by simp
    next
      case False
      with idx [OF that mp] iff that show ?thesis by simp
    qed
    moreover have "\<forall>i. 0 \<le> ref ?s' i" using nn by simp
    ultimately have "kinv e phystop ?s'" unfolding kinv_def by blast
    with k Addref show ?thesis by (simp add: kstep_def)
  next
    case (Subref pa)
    with pr have mp: "managed e phystop pa" and n1: "ref s (pa div PGSIZE) \<noteq> 1" by simp_all
    note m = managed_facts [OF mp lay(1,2)]
    show ?thesis
    proof (cases "0 < ref s (pa div PGSIZE)")
      case False
      then have "subref phystop pa s = Inr s" using m(5) by (simp add: subref_def getref_def)
      with Subref inv show ?thesis by (simp add: kstep_def)
    next
      case True
      let ?s' = "s\<lparr>ref := (ref s)(pa div PGSIZE := ref s (pa div PGSIZE) - 1)\<rparr>"
      have k: "subref phystop pa s = Inr ?s'" using m(5) True by (simp add: subref_def getref_def)
      have "free_pages e phystop ?s' ps" using fp by (simp add: free_pages_def)
      moreover have "(p \<in> set ps) = (ref ?s' (p div PGSIZE) = 0)" if "managed e phystop p" for p
      proof (cases "p = pa")
        case True
        with iff mp \<open>0 < ref s (pa div PGSIZE)\<close> n1 show ?thesis by simp
      next
        case False
        with idx [OF that mp] iff that show ?thesis by simp
      qed
      moreover have "\<forall>i. 0 \<le> ref ?s' i" using nn True by simp
      ultimately have "kinv e phystop ?s'" unfolding kinv_def by blast
      with k Subref show ?thesis by (simp add: kstep_def)
    qed
  qed
qed

lemma krun_kinv:
  assumes lay: "0 < e" "phystop mod PGSIZE = 0" "phystop \<le> 2 ^ 64"
  shows "kinv e phystop s \<Longrightarrow> kproper_run e phystop cs s \<Longrightarrow>
     \<exists>s'. krun e phystop cs s = Inr s' \<and> kinv e phystop s'"
proof (induction cs arbitrary: s)
  case Nil
  then show ?case by simp
next
  case (Cons c cs)
  then have p: "kproper e phystop s c" by simp
  from kstep_kinv [OF lay Cons.prems(1) p]
  obtain s1 where k: "kstep e phystop c s = Inr s1" and i: "kinv e phystop s1" by blast
  with Cons.prems(2) have "kproper_run e phystop cs s1" by simp
  from Cons.IH [OF i this] k show ?case by simp
qed

lemma kinv_on_freelist:
  assumes "kinv e phystop s" "managed e phystop p"
  shows "on_freelist s p = (ref s (p div PGSIZE) = 0)"
proof -
  from assms(1) obtain ps where "flist (mem s) (freelist s) ps"
    and "\<forall>p. managed e phystop p \<longrightarrow> (p \<in> set ps) = (ref s (p div PGSIZE) = 0)"
    by (auto simp: kinv_def free_pages_def)
  with assms(2) on_freelist_iff [of s ps p] show ?thesis by simp
qed

lemma on_freelist_nonempty: "on_freelist s p \<Longrightarrow> freelist s \<noteq> 0"
  by (induction rule: on_freelist.induct) simp_all

lemma managed_one_page: "managed 4096 8192 4096"
  by (simp add: managed_def PGROUNDUP_def PGSIZE_def)

lemma kinv_one_page:
  "kinv 4096 8192
     \<lparr>ref = (\<lambda>i. 0), freelist = 4096, mem = set_run_next (memset (\<lambda>a. 0) 4096 1 PGSIZE) 4096 0\<rparr>"
proof -
  have lay: "(0::nat) < 4096" "(8192::nat) mod PGSIZE = 0" "(8192::nat) \<le> 2 ^ 64"
    by (simp_all add: PGSIZE_def)
  from kinit_kinv [OF lay, of "\<lambda>a. 0"] show ?thesis by (simp add: kinit_one_page)
qed

text \<open>
  C3. In a state of the allocator that \<^verbatim>\<open>kinit\<close> and proper calls lead to, \<^verbatim>\<open>kalloc\<close> never
  panics and returns the null pointer exactly when the free list is empty, leaving the
  state as it was. When the list is not empty it returns the head; the new head is the
  old head's \<^verbatim>\<open>next\<close>, the page is no longer on the free list and every other managed
  page is on it exactly when it was; the page's reference count is one and no other
  count changes; every byte of the page is 5 and no other byte changes; and the state
  reached is again one of these states.
\<close>

theorem kalloc_spec:
  assumes "0 < e" "phystop mod PGSIZE = 0" "kinv e phystop s"
  shows "(\<forall>msg. kalloc phystop s \<noteq> Inl (Panic msg))
   \<and> ((\<exists>s'. kalloc phystop s = Inr (0, s')) = (freelist s = 0))
   \<and> (freelist s = 0 \<longrightarrow> kalloc phystop s = Inr (0, s))
   \<and> (freelist s \<noteq> 0 \<longrightarrow>
        (\<exists>s'. kalloc phystop s = Inr (freelist s, s')
           \<and> freelist s' = run_next (mem s) (freelist s)
           \<and> \<not> on_freelist s' (freelist s)
           \<and> (\<forall>p. managed e phystop p \<and> p \<noteq> freelist s \<longrightarrow> on_freelist s' p = on_freelist s p)
           \<and> ref s' = (ref s)(freelist s div PGSIZE := 1)
           \<and> (\<forall>a. freelist s \<le> a \<and> a < freelist s + PGSIZE \<longrightarrow> mem s' a = 5)
           \<and> (\<forall>a. a < freelist s \<or> freelist s + PGSIZE \<le> a \<longrightarrow> mem s' a = mem s a)
           \<and> kinv e phystop s'))"
proof (intro conjI allI impI)
  fix msg show "kalloc phystop s \<noteq> Inl (Panic msg)" by (rule kalloc_no_panic)
next
  show "(\<exists>s'. kalloc phystop s = Inr (0, s')) = (freelist s = 0)" by (rule kalloc_null_iff)
next
  assume "freelist s = 0" then show "kalloc phystop s = Inr (0, s)" by (rule kalloc_empty)
next
  assume ne: "freelist s \<noteq> 0"
  from kalloc_kinv [OF assms ne]
  obtain s' where k: "kalloc phystop s = Inr (freelist s, s')"
    and mr: "managed e phystop (freelist s)"
    and rf: "ref s' = (ref s)(freelist s div PGSIZE := 1)"
    and fl: "freelist s' = run_next (mem s) (freelist s)"
    and mm: "mem s' = memset (mem s) (freelist s) 5 PGSIZE"
    and inv': "kinv e phystop s'"
    by blast
  have off: "\<not> on_freelist s' (freelist s)"
    using kinv_on_freelist [OF inv' mr] rf by simp
  have same: "on_freelist s' p = on_freelist s p" if "managed e phystop p \<and> p \<noteq> freelist s" for p
  proof -
    from that have mp: "managed e phystop p" and d: "p \<noteq> freelist s" by simp_all
    have "p div PGSIZE \<noteq> freelist s div PGSIZE"
      using mp mr d page_index_inj [of p "freelist s"] by (auto simp: managed_def)
    then have "ref s' (p div PGSIZE) = ref s (p div PGSIZE)" using rf by simp
    with kinv_on_freelist [OF inv' mp] kinv_on_freelist [OF assms(3) mp] show ?thesis by simp
  qed
  have five: "mem s' a = 5" if "freelist s \<le> a \<and> a < freelist s + PGSIZE" for a
    using that mm by (simp add: memset_def)
  have rest: "mem s' a = mem s a" if "a < freelist s \<or> freelist s + PGSIZE \<le> a" for a
    using that mm by (auto simp: memset_def)
  show "\<exists>s'. kalloc phystop s = Inr (freelist s, s')
           \<and> freelist s' = run_next (mem s) (freelist s)
           \<and> \<not> on_freelist s' (freelist s)
           \<and> (\<forall>p. managed e phystop p \<and> p \<noteq> freelist s \<longrightarrow> on_freelist s' p = on_freelist s p)
           \<and> ref s' = (ref s)(freelist s div PGSIZE := 1)
           \<and> (\<forall>a. freelist s \<le> a \<and> a < freelist s + PGSIZE \<longrightarrow> mem s' a = 5)
           \<and> (\<forall>a. a < freelist s \<or> freelist s + PGSIZE \<le> a \<longrightarrow> mem s' a = mem s a)
           \<and> kinv e phystop s'"
    using k fl off same rf five rest inv' by (intro exI [of _ s']) simp
qed

theorem kalloc_spec_witness:
  "(0::nat) < 4096 \<and> (8192::nat) mod PGSIZE = 0
   \<and> (\<exists>s0. kinit 4096 8192 (kmem0 (\<lambda>a. 0)) = Inr s0 \<and> kinv 4096 8192 s0 \<and> freelist s0 = 4096
        \<and> (\<exists>s'. kalloc 8192 s0 = Inr (4096, s')
              \<and> ref s' (4096 div PGSIZE) = 1 \<and> freelist s' = 0 \<and> \<not> on_freelist s' 4096
              \<and> mem s' 4096 = 5 \<and> mem s' 8191 = 5 \<and> kinv 4096 8192 s'
              \<and> kalloc 8192 s' = Inr (0, s')))"
proof -
  define s0 where
    "s0 = \<lparr>ref = (\<lambda>i. 0), freelist = 4096, mem = set_run_next (memset (\<lambda>a. 0) 4096 1 PGSIZE) 4096 0\<rparr>"
  have lay: "(0::nat) < 4096" "(8192::nat) mod PGSIZE = 0" by (simp_all add: PGSIZE_def)
  have k0: "kinit 4096 8192 (kmem0 (\<lambda>a. 0)) = Inr s0" unfolding s0_def by (rule kinit_one_page)
  have i0: "kinv 4096 8192 s0" unfolding s0_def by (rule kinv_one_page)
  have f0: "freelist s0 = 4096" by (simp add: s0_def)
  have n: "run_next (mem s0) (freelist s0) = 0" using run_next_set [of 0] by (simp add: s0_def)
  have ne: "freelist s0 \<noteq> 0" by (simp add: f0)
  from kalloc_spec [OF lay i0, THEN conjunct2, THEN conjunct2, THEN conjunct2, THEN mp, OF ne]
  obtain s' where k: "kalloc 8192 s0 = Inr (freelist s0, s')"
    and fl: "freelist s' = run_next (mem s0) (freelist s0)"
    and off: "\<not> on_freelist s' (freelist s0)"
    and rf: "ref s' = (ref s0)(freelist s0 div PGSIZE := 1)"
    and five: "\<forall>a. freelist s0 \<le> a \<and> a < freelist s0 + PGSIZE \<longrightarrow> mem s' a = 5"
    and inv': "kinv 4096 8192 s'"
    by (elim exE conjE) (rule that)
  from fl n have fl': "freelist s' = 0" by simp
  from five f0 have m: "mem s' 4096 = 5" "mem s' 8191 = 5" by (simp_all add: PGSIZE_def)
  from rf f0 have one: "ref s' (4096 div PGSIZE) = 1" by simp
  from kalloc_spec [OF lay inv', THEN conjunct2, THEN conjunct2, THEN conjunct1] fl'
  have e: "kalloc 8192 s' = Inr (0, s')" by simp
  have "\<exists>s'. kalloc 8192 s0 = Inr (4096, s')
              \<and> ref s' (4096 div PGSIZE) = 1 \<and> freelist s' = 0 \<and> \<not> on_freelist s' 4096
              \<and> mem s' 4096 = 5 \<and> mem s' 8191 = 5 \<and> kinv 4096 8192 s'
              \<and> kalloc 8192 s' = Inr (0, s')"
    using k one fl' off m inv' e f0 by (intro exI [of _ s']) simp
  with lay k0 i0 f0 show ?thesis by blast
qed

text \<open>
  C5, as amended. The layout is that of a kernel: \<^verbatim>\<open>end\<close> is above 0 and at most
  \<^verbatim>\<open>PHYSTOP\<close>, which is page-aligned and far enough below \<open>2^64\<close> that no address the
  loop of \<^verbatim>\<open>freerange\<close> computes wraps around. After every sequence of calls from the
  zeroed state, proper or not, that runs to its end and does not add one to a count of
  \<open>2^31 - 1\<close>, no reference count is negative. And \<^verbatim>\<open>kinit\<close> returns, and every sequence
  of proper calls after it runs to its end in a state where every managed page has a
  count of at least zero and is on the free list exactly when its count is zero.
\<close>

theorem refcount_freelist:
  assumes "0 < e" "e \<le> phystop" "phystop mod PGSIZE = 0" "phystop + PGSIZE < 2 ^ 64"
  shows "(kbounded_run e phystop ds (kmem0 m) \<longrightarrow>
            (\<forall>s i. krun e phystop ds (kmem0 m) = Inr s \<longrightarrow> 0 \<le> ref s i))
     \<and> (\<exists>s0. kinit e phystop (kmem0 m) = Inr s0
          \<and> (kproper_run e phystop cs s0 \<longrightarrow>
               (\<exists>s. krun e phystop cs s0 = Inr s
                  \<and> (\<forall>p. managed e phystop p \<longrightarrow>
                        0 \<le> ref s (p div PGSIZE) \<and> on_freelist s p = (ref s (p div PGSIZE) = 0)))))"
proof (intro conjI impI)
  assume b: "kbounded_run e phystop ds (kmem0 m)"
  have z: "\<forall>i. 0 \<le> ref (kmem0 m) i" by (simp add: kmem0_def)
  show "\<forall>s i. krun e phystop ds (kmem0 m) = Inr s \<longrightarrow> 0 \<le> ref s i"
    using krun_nonneg [OF z b] by blast
next
  have lay: "0 < e" "phystop mod PGSIZE = 0" "phystop \<le> 2 ^ 64" using assms by simp_all
  from kinit_kinv [OF lay, of m]
  obtain s0 where k: "kinit e phystop (kmem0 m) = Inr s0" and i: "kinv e phystop s0" by blast
  have "\<exists>s. krun e phystop cs s0 = Inr s
                  \<and> (\<forall>p. managed e phystop p \<longrightarrow>
                        0 \<le> ref s (p div PGSIZE) \<and> on_freelist s p = (ref s (p div PGSIZE) = 0))"
    if "kproper_run e phystop cs s0"
  proof -
    from krun_kinv [OF lay i that]
    obtain s where r: "krun e phystop cs s0 = Inr s" and j: "kinv e phystop s" by blast
    from j have "\<forall>i. 0 \<le> ref s i" by (auto simp: kinv_def)
    with r kinv_on_freelist [OF j] show ?thesis by blast
  qed
  with k show "\<exists>s0. kinit e phystop (kmem0 m) = Inr s0
          \<and> (kproper_run e phystop cs s0 \<longrightarrow>
               (\<exists>s. krun e phystop cs s0 = Inr s
                  \<and> (\<forall>p. managed e phystop p \<longrightarrow>
                        0 \<le> ref s (p div PGSIZE) \<and> on_freelist s p = (ref s (p div PGSIZE) = 0))))"
    by blast
qed

lemma run_share_page:
  "\<exists>s. krun 4096 8192 [Kalloc, Addref 4096, Kfree 4096, Kfree 4096]
        \<lparr>ref = (\<lambda>i. 0), freelist = 4096, mem = set_run_next (memset (\<lambda>a. 0) 4096 1 PGSIZE) 4096 0\<rparr> = Inr s
      \<and> ref s (4096 div PGSIZE) = 0
      \<and> kproper_run 4096 8192 [Kalloc, Addref 4096, Kfree 4096, Kfree 4096]
        \<lparr>ref = (\<lambda>i. 0), freelist = 4096, mem = set_run_next (memset (\<lambda>a. 0) 4096 1 PGSIZE) 4096 0\<rparr>"
proof -
  let ?M0 = "set_run_next (memset (\<lambda>a. 0) 4096 1 PGSIZE) 4096 0"
  let ?s0 = "\<lparr>ref = (\<lambda>i. 0), freelist = 4096, mem = ?M0\<rparr>"
  let ?s1 = "\<lparr>ref = (\<lambda>i. 0)(1 := 1), freelist = 0, mem = memset ?M0 4096 5 PGSIZE\<rparr>"
  let ?s2 = "\<lparr>ref = (\<lambda>i. 0)(1 := 2), freelist = 0, mem = memset ?M0 4096 5 PGSIZE\<rparr>"
  let ?s4 = "\<lparr>ref = (\<lambda>i. 0)(1 := 0), freelist = 4096,
              mem = set_run_next (memset (memset ?M0 4096 5 PGSIZE) 4096 1 PGSIZE) 4096 0\<rparr>"
  have d: "(4096::nat) div PGSIZE = 1" "(8192::nat) div PGSIZE = 2" "(4096::nat) mod PGSIZE = 0"
    by (simp_all add: PGSIZE_def)
  have w: "int32 1 = 1" "int32 2 = 2" by (simp_all add: int32_id)
  have n: "run_next ?M0 4096 = 0" by (rule run_next_set) simp
  have 1: "kstep 4096 8192 Kalloc ?s0 = Inr ?s1"
    by (simp add: kstep_def kalloc_def addref_def getref_def d n w)
  have 2: "kstep 4096 8192 (Addref 4096) ?s1 = Inr ?s2"
    by (simp add: kstep_def addref_def getref_def d w)
  have 3: "kstep 4096 8192 (Kfree 4096) ?s2 = Inr ?s1"
    by (simp add: kstep_def kfree_def subref_def getref_def d)
  have 4: "kstep 4096 8192 (Kfree 4096) ?s1 = Inr ?s4"
    by (simp add: kstep_def kfree_def subref_def getref_def d)
  have r: "krun 4096 8192 [Kalloc, Addref 4096, Kfree 4096, Kfree 4096] ?s0 = Inr ?s4"
    by (simp only: krun.simps 1 2 3 4 sum.case)
  have p: "kproper_run 4096 8192 [Kalloc, Addref 4096, Kfree 4096, Kfree 4096] ?s0"
    by (simp only: kproper_run.simps kproper.simps 1 2 3 4 sum.case) (simp add: managed_one_page d)
  show ?thesis
  proof (rule exI [of _ ?s4], intro conjI)
    show "krun 4096 8192 [Kalloc, Addref 4096, Kfree 4096, Kfree 4096] ?s0 = Inr ?s4" by (rule r)
    show "ref ?s4 (4096 div PGSIZE) = 0" by (simp add: d)
    show "kproper_run 4096 8192 [Kalloc, Addref 4096, Kfree 4096, Kfree 4096] ?s0" by (rule p)
  qed
qed

lemma run_alloc_subref:
  "krun 4096 8192 [Kinit, Kalloc, Subref 4096] (kmem0 (\<lambda>a. 0)) =
     Inr \<lparr>ref = (\<lambda>i. 0)(1 := 0), freelist = 0,
          mem = memset (set_run_next (memset (\<lambda>a. 0) 4096 1 PGSIZE) 4096 0) 4096 5 PGSIZE\<rparr>
   \<and> kbounded_run 4096 8192 [Kinit, Kalloc, Subref 4096] (kmem0 (\<lambda>a. 0))"
proof -
  let ?M0 = "set_run_next (memset (\<lambda>a. 0) 4096 1 PGSIZE) 4096 0"
  let ?s0 = "\<lparr>ref = (\<lambda>i. 0), freelist = 4096, mem = ?M0\<rparr>"
  let ?s1 = "\<lparr>ref = (\<lambda>i. 0)(1 := 1), freelist = 0, mem = memset ?M0 4096 5 PGSIZE\<rparr>"
  let ?s2 = "\<lparr>ref = (\<lambda>i. 0)(1 := 0), freelist = 0, mem = memset ?M0 4096 5 PGSIZE\<rparr>"
  have d: "(4096::nat) div PGSIZE = 1" "(8192::nat) div PGSIZE = 2" "(4096::nat) mod PGSIZE = 0"
    by (simp_all add: PGSIZE_def)
  have w: "int32 1 = 1" by (simp add: int32_id)
  have n: "run_next ?M0 4096 = 0" by (rule run_next_set) simp
  have 0: "kstep 4096 8192 Kinit (kmem0 (\<lambda>a. 0)) = Inr ?s0"
    by (simp add: kstep_def kinit_one_page)
  have 1: "kstep 4096 8192 Kalloc ?s0 = Inr ?s1"
    by (simp add: kstep_def kalloc_def addref_def getref_def d n w)
  have 2: "kstep 4096 8192 (Subref 4096) ?s1 = Inr ?s2"
    by (simp add: kstep_def subref_def getref_def d)
  have r: "krun 4096 8192 [Kinit, Kalloc, Subref 4096] (kmem0 (\<lambda>a. 0)) = Inr ?s2"
    by (simp only: krun.simps 0 1 2 sum.case)
  have b: "kbounded_run 4096 8192 [Kinit, Kalloc, Subref 4096] (kmem0 (\<lambda>a. 0))"
    by (simp only: kbounded_run.simps kbounded.simps 0 1 2 sum.case) (simp add: d)
  from r b show ?thesis by simp
qed

theorem refcount_freelist_witness:
  "(0::nat) < 4096 \<and> (4096::nat) \<le> 8192 \<and> (8192::nat) mod PGSIZE = 0 \<and> (8192::nat) + PGSIZE < 2 ^ 64
   \<and> (\<exists>s. kbounded_run 4096 8192 [Kinit, Kalloc, Subref 4096] (kmem0 (\<lambda>a. 0))
         \<and> krun 4096 8192 [Kinit, Kalloc, Subref 4096] (kmem0 (\<lambda>a. 0)) = Inr s
         \<and> 0 \<le> ref s (4096 div PGSIZE))
   \<and> (\<exists>s0 s. kinit 4096 8192 (kmem0 (\<lambda>a. 0)) = Inr s0
         \<and> kproper_run 4096 8192 [Kalloc, Addref 4096, Kfree 4096, Kfree 4096] s0
         \<and> krun 4096 8192 [Kalloc, Addref 4096, Kfree 4096, Kfree 4096] s0 = Inr s
         \<and> managed 4096 8192 4096 \<and> ref s (4096 div PGSIZE) = 0 \<and> on_freelist s 4096)"
proof -
  let ?cs = "[Kalloc, Addref 4096, Kfree 4096, Kfree 4096]"
  let ?ds = "[Kinit, Kalloc, Subref 4096]"
  let ?s0 = "\<lparr>ref = (\<lambda>i. 0), freelist = 4096, mem = set_run_next (memset (\<lambda>a. 0) 4096 1 PGSIZE) 4096 0\<rparr>"
  have lay: "(0::nat) < 4096" "(4096::nat) \<le> 8192" "(8192::nat) mod PGSIZE = 0"
    "(8192::nat) + PGSIZE < 2 ^ 64"
    by (simp_all add: PGSIZE_def)
  note t = refcount_freelist [OF lay, of ?ds "\<lambda>a. 0" ?cs]
  from run_alloc_subref obtain s2 where r2: "krun 4096 8192 ?ds (kmem0 (\<lambda>a. 0)) = Inr s2"
    and b2: "kbounded_run 4096 8192 ?ds (kmem0 (\<lambda>a. 0))"
    by blast
  from t [THEN conjunct1, THEN mp, OF b2] r2 have nn: "0 \<le> ref s2 (4096 div PGSIZE)" by blast
  have k: "kinit 4096 8192 (kmem0 (\<lambda>a. 0)) = Inr ?s0" by (rule kinit_one_page)
  from run_share_page obtain s where r: "krun 4096 8192 ?cs ?s0 = Inr s"
    and z: "ref s (4096 div PGSIZE) = 0" and p: "kproper_run 4096 8192 ?cs ?s0"
    by blast
  from t [THEN conjunct2] k p r
  have "\<forall>p. managed 4096 8192 p \<longrightarrow> 0 \<le> ref s (p div PGSIZE) \<and> on_freelist s p = (ref s (p div PGSIZE) = 0)"
    by auto
  with managed_one_page z have "on_freelist s 4096" by blast
  with lay k p r z managed_one_page b2 r2 nn show ?thesis by blast
qed

lemma krun_append:
  "krun e phystop (cs @ ds) s =
     (case krun e phystop cs s of Inl x \<Rightarrow> Inl x | Inr s' \<Rightarrow> krun e phystop ds s')"
  by (induction cs arbitrary: s) (simp_all split: sum.splits)

lemma krun_addrefs:
  "pa div PGSIZE < phystop div PGSIZE \<Longrightarrow> 0 \<le> ref s (pa div PGSIZE) \<Longrightarrow>
     ref s (pa div PGSIZE) + int n \<le> 2147483647 \<Longrightarrow>
     krun e phystop (replicate n (Addref pa)) s =
       Inr (s\<lparr>ref := (ref s)(pa div PGSIZE := ref s (pa div PGSIZE) + int n)\<rparr>)"
proof (induction n arbitrary: s)
  case 0
  then show ?case by simp
next
  case (Suc n)
  let ?i = "pa div PGSIZE"
  let ?s1 = "s\<lparr>ref := (ref s)(?i := ref s ?i + 1)\<rparr>"
  have "int32 (ref s ?i + 1) = ref s ?i + 1"
    using Suc.prems(2,3) by (intro int32_succ) simp_all
  then have k: "kstep e phystop (Addref pa) s = Inr ?s1"
    using Suc.prems(1) by (simp add: kstep_def addref_def getref_def)
  have "krun e phystop (replicate n (Addref pa)) ?s1 =
       Inr (?s1\<lparr>ref := (ref ?s1)(?i := ref ?s1 ?i + int n)\<rparr>)"
    using Suc.prems by (intro Suc.IH) simp_all
  moreover have "(ref ?s1)(?i := ref ?s1 ?i + int n) = (ref s)(?i := ref s ?i + int (Suc n))"
    by (rule ext) simp
  then have "?s1\<lparr>ref := (ref ?s1)(?i := ref ?s1 ?i + int n)\<rparr> =
       s\<lparr>ref := (ref s)(?i := ref s ?i + int (Suc n))\<rparr>"
    by simp
  ultimately have "krun e phystop (replicate n (Addref pa)) ?s1 =
       Inr (s\<lparr>ref := (ref s)(?i := ref s ?i + int (Suc n))\<rparr>)"
    by (rule trans [OF _ arg_cong])
  with k show ?case by (simp only: replicate.simps krun.simps sum.case)
qed

lemma run_overflow:
  "krun 4096 8192 (replicate 2147483647 (Addref 4096) @ [Addref 4096]) (kmem0 (\<lambda>a. 0)) =
     Inr \<lparr>ref = (\<lambda>i. 0)(1 := - 2147483648), freelist = 0, mem = (\<lambda>a. 0)\<rparr>"
proof -
  have d: "(4096::nat) div PGSIZE = 1" "(8192::nat) div PGSIZE = 2" by (simp_all add: PGSIZE_def)
  have "krun 4096 8192 (replicate 2147483647 (Addref 4096)) (kmem0 (\<lambda>a. 0)) =
     Inr ((kmem0 (\<lambda>a. 0))\<lparr>ref := (ref (kmem0 (\<lambda>a. 0)))(4096 div PGSIZE :=
            ref (kmem0 (\<lambda>a. 0)) (4096 div PGSIZE) + int 2147483647)\<rparr>)"
    by (rule krun_addrefs) (simp_all add: kmem0_def d)
  then have a: "krun 4096 8192 (replicate 2147483647 (Addref 4096)) (kmem0 (\<lambda>a. 0)) =
     Inr \<lparr>ref = (\<lambda>i. 0)(1 := 2147483647), freelist = 0, mem = (\<lambda>a. 0)\<rparr>"
    by (simp add: kmem0_def d)
  have w: "int32 2147483648 = - 2147483648" using int32_wraps by simp
  show ?thesis
    unfolding krun_append a by (simp add: kstep_def addref_def getref_def d w)
qed

text \<open>
  The claim C5 as written covers every sequence of calls. After \<^verbatim>\<open>kinit\<close> on one page,
  \<^verbatim>\<open>kalloc\<close> and \<^verbatim>\<open>subref\<close> of the page, the count of the page is zero and the free list
  is empty: \<^verbatim>\<open>subref\<close> does not touch the free list. And after \<open>2^31\<close> calls of \<^verbatim>\<open>addref\<close>
  on one page its count is \<open>- 2^31\<close>.
\<close>

theorem refcount_freelist_counterexample:
  "(case krun 4096 8192 [Kinit, Kalloc, Subref 4096] (kmem0 (\<lambda>a. 0)) of
      Inl x \<Rightarrow> False
    | Inr s \<Rightarrow> managed 4096 8192 4096 \<and> ref s (4096 div PGSIZE) = 0 \<and> \<not> on_freelist s 4096)
   \<and> (case krun 4096 8192 (replicate 2147483647 (Addref 4096) @ [Addref 4096]) (kmem0 (\<lambda>a. 0)) of
        Inl x \<Rightarrow> False
      | Inr s \<Rightarrow> managed 4096 8192 4096 \<and> ref s (4096 div PGSIZE) < 0)"
proof
  let ?s2 = "\<lparr>ref = (\<lambda>i. 0)(1 := 0), freelist = 0,
          mem = memset (set_run_next (memset (\<lambda>a. 0) 4096 1 PGSIZE) 4096 0) 4096 5 PGSIZE\<rparr>"
  have d: "(4096::nat) div PGSIZE = 1" by (simp add: PGSIZE_def)
  have r: "krun 4096 8192 [Kinit, Kalloc, Subref 4096] (kmem0 (\<lambda>a. 0)) = Inr ?s2"
    using run_alloc_subref by simp
  have "\<not> on_freelist ?s2 4096" using on_freelist_nonempty [of ?s2 4096] by auto
  then show "case krun 4096 8192 [Kinit, Kalloc, Subref 4096] (kmem0 (\<lambda>a. 0)) of
      Inl x \<Rightarrow> False
    | Inr s \<Rightarrow> managed 4096 8192 4096 \<and> ref s (4096 div PGSIZE) = 0 \<and> \<not> on_freelist s 4096"
    unfolding r by (simp add: d managed_one_page)
  show "case krun 4096 8192 (replicate 2147483647 (Addref 4096) @ [Addref 4096]) (kmem0 (\<lambda>a. 0)) of
        Inl x \<Rightarrow> False
      | Inr s \<Rightarrow> managed 4096 8192 4096 \<and> ref s (4096 div PGSIZE) < 0"
    unfolding run_overflow by (simp add: d managed_one_page)
qed

section \<open>The buffer cache: single calls\<close>

lemma wr_Buf [simp]: "wr s (Buf i) f = Inr (s\<lparr>buf := (buf s)(i := f (buf s i))\<rparr>)"
  by (simp add: wr_def deref_def store_def)

lemma wr_Bucket [simp]: "wr s (Bucket k) f = Inr (s\<lparr>bucket := (bucket s)(k := f (bucket s k))\<rparr>)"
  by (simp add: wr_def deref_def store_def)

lemma wr_Null [simp]: "wr s Null f = Inl NullDeref"
  by (simp add: wr_def deref_def)

lemma deref_simps [simp]:
  "deref s Null = None" "deref s (Buf i) = Some (buf s i)" "deref s (Bucket k) = Some (bucket s k)"
  by (simp_all add: deref_def)

lemma store_simps [simp]:
  "store s Null v = s"
  "store s (Buf i) v = s\<lparr>buf := (buf s)(i := v)\<rparr>"
  "store s (Bucket k) v = s\<lparr>bucket := (bucket s)(k := v)\<rparr>"
  by (simp_all add: store_def)

lemma scan_head [simp]: "scan s key d bn (Bucket key) = Some NotFound"
  by (subst scan.simps) simp

lemma scan_Null [simp]: "scan s key d bn Null = Some ScanNull"
  by (subst scan.simps) simp

lemma scan_Buf: "scan s key d bn (Buf i) =
   (if dev (buf s i) = d \<and> blockno (buf s i) = bn then Some (Found (Buf i))
    else scan s key d bn (next (buf s i)))"
  by (subst scan.simps) simp

lemma scan_Bucket: "k \<noteq> key \<Longrightarrow> scan s key d bn (Bucket k) =
   (if dev (bucket s k) = d \<and> blockno (bucket s k) = bn then Some (Found (Bucket k))
    else scan s key d bn (next (bucket s k)))"
  by (subst scan.simps) simp

lemma scan_Found_aux:
  "scan s key d bn b = Some r \<Longrightarrow>
     \<forall>p. r = Found p \<longrightarrow> (\<exists>x. deref s p = Some x \<and> dev x = d \<and> blockno x = bn)"
  by (erule scan.raw_induct [rotated]) (auto split: if_splits option.splits)

lemma scan_Found:
  "scan s key d bn b = Some (Found p) \<Longrightarrow> \<exists>x. deref s p = Some x \<and> dev x = d \<and> blockno x = bn"
  using scan_Found_aux by blast

lemma scan_NotFound_aux:
  "scan s key d bn b = Some r \<Longrightarrow> r = NotFound \<longrightarrow> b \<noteq> Null"
  by (erule scan.raw_induct [rotated]) (auto split: if_splits option.splits)

lemma binit_loop_bucket:
  "bucket (binit_loop n s) k = (if k < n then (bucket s k)\<lparr>prev := Bucket k, next := Bucket k\<rparr> else bucket s k)"
  by (induction n) (auto simp: Let_def less_Suc_eq)

lemma binit_loop_rest [simp]:
  "buf (binit_loop n s) = buf s" "disk (binit_loop n s) = disk s" "io (binit_loop n s) = io s"
  by (induction n) (auto simp: Let_def)

lemma binit_locks_buf:
  "buf (binit_locks n s) i = (if i < n then (buf s i)\<lparr>lock := None\<rparr> else buf s i)"
  by (induction n) (auto simp: Let_def less_Suc_eq)

lemma binit_locks_rest [simp]:
  "bucket (binit_locks n s) = bucket s" "disk (binit_locks n s) = disk s" "io (binit_locks n s) = io s"
  by (induction n) (auto simp: Let_def)

lemma binit_bucket:
  "bucket (binit nbuf s) k = (if k < NBUCKET then (bucket s k)\<lparr>prev := Bucket k, next := Bucket k\<rparr> else bucket s k)"
  by (simp add: binit_def binit_loop_bucket)

lemma binit_rest [simp]:
  "buf (binit nbuf s) i = (if i < nbuf then (buf s i)\<lparr>lock := None\<rparr> else buf s i)"
  "disk (binit nbuf s) = disk s" "io (binit nbuf s) = io s"
  by (simp_all add: binit_def binit_locks_buf)

lemma binit_buf0 [simp]: "buf (binit nbuf bcache0) = (\<lambda>i. buf0)"
  by (rule ext) (simp add: bcache0_def buf0_def)

lemma bkey_less [simp]: "bkey bn < NBUCKET"
  by (simp add: bkey_def NBUCKET_def)

lemma best_step:
  assumes "best s i lb"
  shows "best s (Suc i)
       (if (lb = None \<and> refcnt (buf s i) = 0)
           \<or> (refcnt (buf s i) = 0 \<and> (case lb of None \<Rightarrow> False | Some l \<Rightarrow> ticks (buf s l) > ticks (buf s i)))
        then Some i else lb)"
proof (cases lb)
  case None
  with assms show ?thesis
    by (auto simp: best_def less_Suc_eq)
next
  case (Some l)
  with assms show ?thesis
    by (auto simp: best_def less_Suc_eq not_less dest: order.strict_trans1 order.strict_trans2)
qed

lemma best_lru_loop: "best s i lb \<Longrightarrow> best s (i + n) (lru_loop s i n lb)"
proof (induction n arbitrary: i lb)
  case 0
  then show ?case by simp
next
  case (Suc n)
  from best_step [OF Suc.prems] Suc.IH [of "Suc i"] show ?case by simp
qed

lemma best_lru: "best s nbuf (lru_loop s 0 nbuf None)"
  using best_lru_loop [of s 0 None nbuf] by (simp add: best_def)

lemma lru_None_iff: "(lru_loop s 0 nbuf None = None) = (\<forall>j<nbuf. refcnt (buf s j) \<noteq> 0)"
  using best_lru [of s nbuf] by (auto simp: best_def split: option.splits)

lemma rebind_ok:
  assumes "next (bucket s (bkey bn)) \<noteq> Null"
  shows "\<exists>s1. rebind s b d bn = Inr s1
     \<and> buf s1 b = (buf s b)\<lparr>dev := d, blockno := bn, valid := 0, refcnt := 1,
           next := next (bucket s (bkey bn)),
           prev := (if next (bucket s (bkey bn)) = Buf b then Buf b else Bucket (bkey bn))\<rparr>
     \<and> disk s1 = disk s \<and> io s1 = io s"
  using assms by (cases "next (bucket s (bkey bn))") (auto simp: rebind_def Let_def)

lemma acquiresleep_Buf:
  "acquiresleep pid s (Buf i) =
     (if lock (buf s i) = None then Inr (s\<lparr>buf := (buf s)(i := (buf s i)\<lparr>lock := Some pid\<rparr>)\<rparr>) else Inl Blocked)"
  by (simp add: acquiresleep_def)

lemma bget_miss:
  assumes "scan s (bkey bn) d bn (next (bucket s (bkey bn))) = Some NotFound"
  shows "bget nbuf pid d bn s =
     Some (case lru_loop s 0 nbuf None of
             None \<Rightarrow> Inl (Panic ''bget: no buffers'')
           | Some b \<Rightarrow> (case rebind s b d bn of
                 Inl e \<Rightarrow> Inl e
               | Inr s1 \<Rightarrow> (case acquiresleep pid s1 (Buf b) of
                     Inl e \<Rightarrow> Inl e | Inr s2 \<Rightarrow> Inr (Buf b, s2))))"
  using assms by (simp add: bget_def)

lemma bget_miss_lru:
  assumes miss: "scan s (bkey bn) d bn (next (bucket s (bkey bn))) = Some NotFound"
      and zero: "\<exists>j<nbuf. refcnt (buf s j) = 0"
      and unlocked: "\<forall>j<nbuf. refcnt (buf s j) = 0 \<longrightarrow> lock (buf s j) = None"
  shows "\<exists>i s'. bget nbuf pid d bn s = Some (Inr (Buf i, s'))
     \<and> i < nbuf \<and> refcnt (buf s i) = 0
     \<and> (\<forall>j<nbuf. refcnt (buf s j) = 0 \<longrightarrow> ticks (buf s i) \<le> ticks (buf s j))
     \<and> (\<forall>j<i. refcnt (buf s j) = 0 \<longrightarrow> ticks (buf s i) < ticks (buf s j))"
proof -
  from zero obtain i where i: "lru_loop s 0 nbuf None = Some i"
    using lru_None_iff [of s nbuf] by (cases "lru_loop s 0 nbuf None") auto
  with best_lru [of s nbuf] have b: "i < nbuf" "refcnt (buf s i) = 0"
    "\<forall>j<nbuf. refcnt (buf s j) = 0 \<longrightarrow> ticks (buf s i) \<le> ticks (buf s j)"
    "\<forall>j<i. refcnt (buf s j) = 0 \<longrightarrow> ticks (buf s i) < ticks (buf s j)"
    by (simp_all add: best_def)
  have "next (bucket s (bkey bn)) \<noteq> Null"
    using miss scan_NotFound_aux by blast
  then obtain s1 where r: "rebind s i d bn = Inr s1"
    and l: "lock (buf s1 i) = lock (buf s i)"
    using rebind_ok [of s bn i d] by auto
  from b unlocked have "lock (buf s i) = None" by simp
  with l have "acquiresleep pid s1 (Buf i) = Inr (s1\<lparr>buf := (buf s1)(i := (buf s1 i)\<lparr>lock := Some pid\<rparr>)\<rparr>)"
    by (simp add: acquiresleep_Buf)
  with i r have "bget nbuf pid d bn s = Some (Inr (Buf i, s1\<lparr>buf := (buf s1)(i := (buf s1 i)\<lparr>lock := Some pid\<rparr>)\<rparr>))"
    by (simp add: bget_miss [OF miss])
  with b show ?thesis by blast
qed

text \<open>
  C1. When \<^verbatim>\<open>bget\<close> misses (the walk through the bucket comes back to the head without
  a match) and some buffer of the pool has reference count zero, the second loop ends
  with a buffer \<open>i\<close> of the pool whose reference count is zero; no buffer with reference
  count zero has a smaller \<^verbatim>\<open>ticks\<close>, and every buffer with reference count zero at a
  smaller index has a strictly larger \<^verbatim>\<open>ticks\<close>: the first one met keeps the place on a
  tie. \<^verbatim>\<open>bget\<close> recycles and returns this buffer (when its sleep lock is held, the call
  sleeps on it).
\<close>

theorem bget_recycles_lru:
  assumes miss: "scan s (bkey bn) d bn (next (bucket s (bkey bn))) = Some NotFound"
      and zero: "\<exists>j<nbuf. refcnt (buf s j) = 0"
  shows "\<exists>i. lru_loop s 0 nbuf None = Some i \<and> i < nbuf \<and> refcnt (buf s i) = 0
     \<and> (\<forall>j<nbuf. refcnt (buf s j) = 0 \<longrightarrow> ticks (buf s i) \<le> ticks (buf s j))
     \<and> (\<forall>j<i. refcnt (buf s j) = 0 \<longrightarrow> ticks (buf s i) < ticks (buf s j))
     \<and> (if lock (buf s i) = None then \<exists>s'. bget nbuf pid d bn s = Some (Inr (Buf i, s'))
         else bget nbuf pid d bn s = Some (Inl Blocked))"
proof -
  from zero obtain i where i: "lru_loop s 0 nbuf None = Some i"
    using lru_None_iff [of s nbuf] by (cases "lru_loop s 0 nbuf None") auto
  with best_lru [of s nbuf] have b: "i < nbuf" "refcnt (buf s i) = 0"
    "\<forall>j<nbuf. refcnt (buf s j) = 0 \<longrightarrow> ticks (buf s i) \<le> ticks (buf s j)"
    "\<forall>j<i. refcnt (buf s j) = 0 \<longrightarrow> ticks (buf s i) < ticks (buf s j)"
    by (simp_all add: best_def)
  have "next (bucket s (bkey bn)) \<noteq> Null"
    using miss scan_NotFound_aux by blast
  then obtain s1 where r: "rebind s i d bn = Inr s1"
    and l: "lock (buf s1 i) = lock (buf s i)"
    using rebind_ok [of s bn i d] by auto
  have g: "bget nbuf pid d bn s =
      Some (case acquiresleep pid s1 (Buf i) of Inl e \<Rightarrow> Inl e | Inr s2 \<Rightarrow> Inr (Buf i, s2))"
    using i r by (simp add: bget_miss [OF miss])
  have "if lock (buf s i) = None then \<exists>s'. bget nbuf pid d bn s = Some (Inr (Buf i, s'))
         else bget nbuf pid d bn s = Some (Inl Blocked)"
    using g l by (simp add: acquiresleep_Buf)
  with i b show ?thesis by blast
qed

theorem bget_recycles_lru_witness:
  "\<exists>s'. bget 3 7 1 10
      ((binit 3 bcache0)\<lparr>buf := (\<lambda>i. buf0)(0 := buf0\<lparr>refcnt := 1\<rparr>, 1 := buf0\<lparr>ticks := 5\<rparr>,
                                        2 := buf0\<lparr>ticks := 5\<rparr>)\<rparr>) = Some (Inr (Buf 1, s'))"
proof -
  let ?s = "(binit 3 bcache0)\<lparr>buf := (\<lambda>i. buf0)(0 := buf0\<lparr>refcnt := 1\<rparr>, 1 := buf0\<lparr>ticks := 5\<rparr>,
                                        2 := buf0\<lparr>ticks := 5\<rparr>)\<rparr>"
  have k: "bkey 10 = 10" by (simp add: bkey_def NBUCKET_def)
  have miss: "scan ?s (bkey 10) 1 10 (next (bucket ?s (bkey 10))) = Some NotFound"
    by (simp add: k binit_bucket NBUCKET_def)
  have zero: "\<exists>j<3. refcnt (buf ?s j) = 0"
    by (rule exI [of _ 1]) (simp add: buf0_def)
  from bget_recycles_lru [OF miss zero, of 7]
  obtain i where i: "i < 3" "refcnt (buf ?s i) = 0"
    and f: "\<forall>j<i. refcnt (buf ?s j) = 0 \<longrightarrow> ticks (buf ?s i) < ticks (buf ?s j)"
    and g: "if lock (buf ?s i) = None then \<exists>s'. bget 3 7 1 10 ?s = Some (Inr (Buf i, s'))
         else bget 3 7 1 10 ?s = Some (Inl Blocked)"
    by blast
  from i have "i = 1 \<or> i = 2"
    by (cases "i = 0") (auto simp: buf0_def)
  moreover have "i \<noteq> 2"
  proof
    assume "i = 2"
    with f [THEN spec, of 1] show False by (simp add: buf0_def)
  qed
  ultimately have "i = 1" by simp
  with g show ?thesis by (simp add: buf0_def)
qed

lemma bget_bound:
  assumes "bget nbuf pid d bn s = Some (Inr (b, s1))"
  shows "\<exists>x. deref s1 b = Some x \<and> dev x = d \<and> blockno x = bn \<and> lock x = Some pid"
proof (cases "scan s (bkey bn) d bn (next (bucket s (bkey bn)))")
  case None
  with assms show ?thesis by (simp add: bget_def)
next
  case (Some r)
  show ?thesis
  proof (cases r)
    case (Found p)
    with Some obtain x where x: "deref s p = Some x" "dev x = d" "blockno x = bn"
      using scan_Found by blast
    with assms Some Found show ?thesis
      by (cases p) (auto simp: bget_def acquiresleep_def split: if_splits)
  next
    case NotFound
    with Some have h: "next (bucket s (bkey bn)) \<noteq> Null"
      using scan_NotFound_aux by blast
    from assms Some NotFound obtain i s0 where i: "lru_loop s 0 nbuf None = Some i"
      and r: "rebind s i d bn = Inr s0" and a: "acquiresleep pid s0 (Buf i) = Inr s1" and b: "b = Buf i"
      by (auto simp: bget_def split: option.splits sum.splits)
    from rebind_ok [OF h, of i d] r have "dev (buf s0 i) = d" "blockno (buf s0 i) = bn"
      by auto
    with a b show ?thesis
      by (auto simp: acquiresleep_Buf split: if_splits)
  next
    case ScanNull
    with assms Some show ?thesis by (simp add: bget_def)
  qed
qed

lemma bget_miss_invalid:
  assumes "bget nbuf pid d bn s = Some (Inr (b, s1))"
      and "scan s (bkey bn) d bn (next (bucket s (bkey bn))) = Some NotFound"
  shows "\<exists>x. deref s1 b = Some x \<and> valid x = 0 \<and> refcnt x = 1"
proof -
  from assms(2) have h: "next (bucket s (bkey bn)) \<noteq> Null"
    using scan_NotFound_aux by blast
  from assms obtain i s0 where i: "lru_loop s 0 nbuf None = Some i"
    and r: "rebind s i d bn = Inr s0" and a: "acquiresleep pid s0 (Buf i) = Inr s1" and b: "b = Buf i"
    by (auto simp: bget_def split: option.splits sum.splits)
  from rebind_ok [OF h, of i d] r have "valid (buf s0 i) = 0" "refcnt (buf s0 i) = 1"
    by auto
  with a b show ?thesis
    by (auto simp: acquiresleep_Buf split: if_splits)
qed

lemma rebind_io: "rebind s b d bn = Inr s1 \<Longrightarrow> disk s1 = disk s \<and> io s1 = io s"
  by (cases "next (bucket s (bkey bn))") (auto simp: rebind_def Let_def)

lemma acquiresleep_io: "acquiresleep pid s p = Inr s1 \<Longrightarrow> disk s1 = disk s \<and> io s1 = io s"
  by (cases p) (auto simp: acquiresleep_def split: if_splits)

lemma wr_io: "wr s p f = Inr s1 \<Longrightarrow> disk s1 = disk s \<and> io s1 = io s"
  by (cases p) auto

lemma bget_io:
  assumes "bget nbuf pid d bn s = Some (Inr (b, s1))"
  shows "disk s1 = disk s \<and> io s1 = io s"
  using assms
  by (auto simp: bget_def split: option.splits scan_result.splits sum.splits
           dest!: rebind_io acquiresleep_io wr_io)

text \<open>
  C6. \<^verbatim>\<open>bread\<close> stops where \<^verbatim>\<open>bget\<close> stops. Where \<^verbatim>\<open>bget\<close> returns a buffer, the buffer
  carries the requested device and block number, and \<^verbatim>\<open>bget\<close> has made no disk
  transfer; a buffer that \<^verbatim>\<open>bget\<close> recycled is not valid. When the buffer is not valid
  \<^verbatim>\<open>bread\<close> makes one read transfer that fills it from the disk and then marks it
  valid; when it is valid \<^verbatim>\<open>bread\<close> returns it as \<^verbatim>\<open>bget\<close> left it.
\<close>

theorem bread_spec:
  "(bget nbuf pid d bn s = None \<longrightarrow> bread nbuf pid d bn s = None)
   \<and> (\<forall>e. bget nbuf pid d bn s = Some (Inl e) \<longrightarrow> bread nbuf pid d bn s = Some (Inl e))
   \<and> (\<forall>b s1. bget nbuf pid d bn s = Some (Inr (b, s1)) \<longrightarrow>
        (\<exists>x. deref s1 b = Some x \<and> dev x = d \<and> blockno x = bn \<and> io s1 = io s \<and> disk s1 = disk s
           \<and> (scan s (bkey bn) d bn (next (bucket s (bkey bn))) = Some NotFound \<longrightarrow> valid x = 0)
           \<and> bread nbuf pid d bn s =
               Some (Inr (b, if valid x = 0
                             then (store s1 b (x\<lparr>data := disk s (d, bn), valid := 1\<rparr>))
                                    \<lparr>io := io s @ [(b, False)]\<rparr>
                             else s1))))"
proof (intro conjI allI impI)
  assume "bget nbuf pid d bn s = None"
  then show "bread nbuf pid d bn s = None" by (simp add: bread_def)
next
  fix e assume "bget nbuf pid d bn s = Some (Inl e)"
  then show "bread nbuf pid d bn s = Some (Inl e)" by (simp add: bread_def)
next
  fix b s1 assume g: "bget nbuf pid d bn s = Some (Inr (b, s1))"
  from bget_bound [OF g] obtain x where x: "deref s1 b = Some x" "dev x = d" "blockno x = bn"
    by blast
  from bget_io [OF g] have o: "io s1 = io s" "disk s1 = disk s" by simp_all
  have v: "valid x = 0" if "scan s (bkey bn) d bn (next (bucket s (bkey bn))) = Some NotFound"
    using bget_miss_invalid [OF g that] x by simp
  have r: "bread nbuf pid d bn s =
               Some (Inr (b, if valid x = 0
                             then (store s1 b (x\<lparr>data := disk s (d, bn), valid := 1\<rparr>))
                                    \<lparr>io := io s @ [(b, False)]\<rparr>
                             else s1))"
    using g x o by (cases b) (auto simp: bread_def virtio_disk_rw_def)
  show "\<exists>x. deref s1 b = Some x \<and> dev x = d \<and> blockno x = bn \<and> io s1 = io s \<and> disk s1 = disk s
           \<and> (scan s (bkey bn) d bn (next (bucket s (bkey bn))) = Some NotFound \<longrightarrow> valid x = 0)
           \<and> bread nbuf pid d bn s =
               Some (Inr (b, if valid x = 0
                             then (store s1 b (x\<lparr>data := disk s (d, bn), valid := 1\<rparr>))
                                    \<lparr>io := io s @ [(b, False)]\<rparr>
                             else s1))"
    using x v r o by blast
qed

theorem bread_spec_witness:
  "\<exists>i s'. bread 2 7 1 10 ((binit 2 bcache0)\<lparr>disk := (\<lambda>k. [])((1, 10) := [42])\<rparr>) = Some (Inr (Buf i, s'))
     \<and> dev (buf s' i) = 1 \<and> blockno (buf s' i) = 10 \<and> valid (buf s' i) = 1
     \<and> data (buf s' i) = [42] \<and> io s' = [(Buf i, False)]"
proof -
  let ?s = "(binit 2 bcache0)\<lparr>disk := (\<lambda>k. [])((1, 10) := [42])\<rparr>"
  have k: "bkey 10 = 10" by (simp add: bkey_def NBUCKET_def)
  have miss: "scan ?s (bkey 10) 1 10 (next (bucket ?s (bkey 10))) = Some NotFound"
    by (simp add: k binit_bucket NBUCKET_def)
  have zero: "\<exists>j<2. refcnt (buf ?s j) = 0"
    by (rule exI [of _ 0]) (simp add: bcache0_def buf0_def)
  have unlocked: "\<forall>j<2. refcnt (buf ?s j) = 0 \<longrightarrow> lock (buf ?s j) = None"
    by (simp add: bcache0_def buf0_def)
  from bget_miss_lru [OF miss zero unlocked, of 7]
  obtain i s1 where g: "bget 2 7 1 10 ?s = Some (Inr (Buf i, s1))"
    by blast
  from bread_spec [of 2 7 1 10 ?s] g miss
  have r: "bread 2 7 1 10 ?s =
      Some (Inr (Buf i, (store s1 (Buf i) ((buf s1 i)\<lparr>data := disk ?s (1, 10), valid := 1\<rparr>))
                          \<lparr>io := io ?s @ [(Buf i, False)]\<rparr>))"
    and x: "dev (buf s1 i) = 1" "blockno (buf s1 i) = 10"
    by auto
  show ?thesis
    by (rule exI [of _ i], rule exI, rule conjI, rule r) (simp add: x bcache0_def)
qed

text \<open>
  C9. \<^verbatim>\<open>bwrite\<close> and \<^verbatim>\<open>brelse\<close> panic exactly when the caller does not hold the buffer's
  sleep lock. With the lock held, \<^verbatim>\<open>bwrite\<close> makes one write transfer of the buffer's
  content to its block and changes no buffer and no list head: the lock, the validity
  flag and every other field are as before. (The only other way \<^verbatim>\<open>brelse\<close> can stop is
  at a null \<^verbatim>\<open>prev\<close> or \<^verbatim>\<open>next\<close> of a buffer whose count reaches zero; a buffer that
  is linked into a bucket has neither, see C7.)
\<close>

theorem bwrite_brelse_lock:
  "((\<exists>msg. bwrite pid (Buf i) s = Inl (Panic msg)) = (\<not> holdingsleep pid (buf s i)))
   \<and> ((\<exists>msg. brelse pid now (Buf i) s = Inl (Panic msg)) = (\<not> holdingsleep pid (buf s i)))
   \<and> (holdingsleep pid (buf s i) \<longrightarrow>
        bwrite pid (Buf i) s =
          Inr (s\<lparr>disk := (disk s)((dev (buf s i), blockno (buf s i)) := data (buf s i)),
                 io := io s @ [(Buf i, True)]\<rparr>))"
proof (intro conjI impI)
  show "(\<exists>msg. bwrite pid (Buf i) s = Inl (Panic msg)) = (\<not> holdingsleep pid (buf s i))"
    by (auto simp: bwrite_def virtio_disk_rw_def)
next
  have "brelse pid now (Buf i) s \<noteq> Inl (Panic msg)" if "holdingsleep pid (buf s i)" for msg
    using that
    by (auto simp: brelse_def releasesleep_def unlink_def wr_def deref_def
             split: sum.splits option.splits if_splits bptr.splits)
  then show "(\<exists>msg. brelse pid now (Buf i) s = Inl (Panic msg)) = (\<not> holdingsleep pid (buf s i))"
    by (auto simp: brelse_def)
next
  assume "holdingsleep pid (buf s i)"
  then show "bwrite pid (Buf i) s =
          Inr (s\<lparr>disk := (disk s)((dev (buf s i), blockno (buf s i)) := data (buf s i)),
                 io := io s @ [(Buf i, True)]\<rparr>)"
    by (simp add: bwrite_def virtio_disk_rw_def)
qed

theorem bwrite_brelse_lock_witness:
  "holdingsleep 7 (buf (bcache0\<lparr>buf := (\<lambda>i. buf0\<lparr>lock := Some 7, data := [42]\<rparr>)\<rparr>) 0)
   \<and> bwrite 7 (Buf 0) (bcache0\<lparr>buf := (\<lambda>i. buf0\<lparr>lock := Some 7, data := [42]\<rparr>)\<rparr>) =
       Inr (bcache0\<lparr>buf := (\<lambda>i. buf0\<lparr>lock := Some 7, data := [42]\<rparr>),
                    disk := (\<lambda>k. [])((0, 0) := [42]), io := [(Buf 0, True)]\<rparr>)
   \<and> (\<exists>msg. bwrite 8 (Buf 0) (bcache0\<lparr>buf := (\<lambda>i. buf0\<lparr>lock := Some 7, data := [42]\<rparr>)\<rparr>) = Inl (Panic msg))
   \<and> (\<exists>msg. brelse 8 0 (Buf 0) (bcache0\<lparr>buf := (\<lambda>i. buf0\<lparr>lock := Some 7, data := [42]\<rparr>)\<rparr>) = Inl (Panic msg))"
  using bwrite_brelse_lock [of 7 0 "bcache0\<lparr>buf := (\<lambda>i. buf0\<lparr>lock := Some 7, data := [42]\<rparr>)\<rparr>" 0]
        bwrite_brelse_lock [of 8 0 "bcache0\<lparr>buf := (\<lambda>i. buf0\<lparr>lock := Some 7, data := [42]\<rparr>)\<rparr>" 0]
  by (simp add: holdingsleep_def bcache0_def buf0_def)

text \<open>
  C10. \<^verbatim>\<open>bpin\<close> adds one to the buffer's reference count and \<^verbatim>\<open>bunpin\<close> takes one from
  it (32-bit arithmetic); nothing else in the cache changes. In particular, when
  \<^verbatim>\<open>bunpin\<close> brings the count to zero the buffer keeps its \<^verbatim>\<open>prev\<close>, \<^verbatim>\<open>next\<close> and
  \<^verbatim>\<open>ticks\<close>.
\<close>

theorem bpin_bunpin_frame:
  "bpin (Buf i) s = Inr (s\<lparr>buf := (buf s)(i := (buf s i)\<lparr>refcnt := refcnt (buf s i) + 1\<rparr>)\<rparr>)
   \<and> bunpin (Buf i) s = Inr (s\<lparr>buf := (buf s)(i := (buf s i)\<lparr>refcnt := refcnt (buf s i) - 1\<rparr>)\<rparr>)
   \<and> (refcnt (buf s i) = 1 \<longrightarrow>
        (\<exists>s'. bunpin (Buf i) s = Inr s' \<and> refcnt (buf s' i) = 0
           \<and> prev (buf s' i) = prev (buf s i) \<and> next (buf s' i) = next (buf s i)
           \<and> ticks (buf s' i) = ticks (buf s i) \<and> bucket s' = bucket s))"
  by (simp add: bpin_def bunpin_def)

theorem bpin_bunpin_frame_witness:
  "refcnt (buf (bcache0\<lparr>buf := (\<lambda>i. buf0\<lparr>refcnt := 1, next := Bucket 3, prev := Bucket 3, ticks := 9\<rparr>)\<rparr>) 0) = 1
   \<and> (\<exists>s'. bunpin (Buf 0) (bcache0\<lparr>buf := (\<lambda>i. buf0\<lparr>refcnt := 1, next := Bucket 3, prev := Bucket 3, ticks := 9\<rparr>)\<rparr>) = Inr s'
         \<and> refcnt (buf s' 0) = 0 \<and> prev (buf s' 0) = Bucket 3 \<and> next (buf s' 0) = Bucket 3
         \<and> ticks (buf s' 0) = 9)"
  using bpin_bunpin_frame [of 0 "bcache0\<lparr>buf := (\<lambda>i. buf0\<lparr>refcnt := 1, next := Bucket 3, prev := Bucket 3, ticks := 9\<rparr>)\<rparr>"]
  by (simp add: bcache0_def buf0_def)

section \<open>The buffer cache: the bucket lists\<close>

lemma nxt_simps [simp]:
  "nxt s Null = Null" "nxt s (Buf i) = next (buf s i)" "nxt s (Bucket k) = next (bucket s k)"
  by (simp_all add: nxt_def)

lemma prv_simps [simp]:
  "prv s Null = Null" "prv s (Buf i) = prev (buf s i)" "prv s (Bucket k) = prev (bucket s k)"
  by (simp_all add: prv_def)

lemma dl_frame:
  assumes "\<And>p. p = a \<or> p \<in> Buf ` set bs \<Longrightarrow> nx' p = nx p"
      and "\<And>p. p = z \<or> p \<in> Buf ` set bs \<Longrightarrow> pv' p = pv p"
  shows "dl nx' pv' a bs z = dl nx pv a bs z"
  using assms
proof (induction bs arbitrary: a)
  case Nil
  then show ?case by simp
next
  case (Cons b bs)
  have "dl nx' pv' (Buf b) bs z = dl nx pv (Buf b) bs z"
    by (rule Cons.IH) (auto simp: Cons.prems)
  moreover have "nx' a = nx a" "pv' (Buf b) = pv (Buf b)"
    by (auto simp: Cons.prems)
  ultimately show ?case by simp
qed

lemma dl_next_of:
  "dl nx pv a (xs @ i # ys) z \<Longrightarrow> nx (Buf i) = hd (map Buf ys @ [z])"
proof (induction xs arbitrary: a)
  case Nil
  then show ?case by (cases ys) simp_all
next
  case (Cons x xs)
  then show ?case by auto
qed

lemma dl_prev_of:
  "dl nx pv a (xs @ i # ys) z \<Longrightarrow> pv (Buf i) = last (a # map Buf xs)"
  by (induction xs arbitrary: a) auto

lemma dl_head:
  "dl nx pv a bs z \<Longrightarrow> nx a = hd (map Buf bs @ [z])"
  by (cases bs) auto

lemma dl_unlink:
  assumes "dl nx pv a (xs @ i # ys) z" "distinct (xs @ i # ys)"
      and "a \<notin> Buf ` set (xs @ i # ys)" "z \<notin> Buf ` set (xs @ i # ys)"
      and "P = pv (Buf i)" "N = nx (Buf i)"
  shows "dl ((nx(P := N))(Buf i := Null)) ((pv(N := P))(Buf i := Null)) a (xs @ ys) z"
proof -
  define nx' where "nx' = (nx(P := N))(Buf i := Null)"
  define pv' where "pv' = (pv(N := P))(Buf i := Null)"
  have nx': "nx' q = (if q = Buf i then Null else if q = P then N else nx q)" for q
    by (simp add: nx'_def)
  have pv': "pv' q = (if q = Buf i then Null else if q = N then P else pv q)" for q
    by (simp add: pv'_def)
  have "dl nx' pv' a (xs @ ys) z"
    using assms(1-4)
  proof (induction xs arbitrary: a)
    case Nil
    then have a: "nx a = Buf i" "pv (Buf i) = a" and r: "dl nx pv (Buf i) ys z"
      and ai: "a \<noteq> Buf i" and zi: "z \<noteq> Buf i" by auto
    have P: "P = a" using a assms(5) by simp
    show ?case
    proof (cases ys)
      case Nil
      with r have "nx (Buf i) = z" "pv z = Buf i" by auto
      then have N: "N = z" using assms(6) by simp
      have "nx' a = z" "pv' z = a" using P N ai zi by (simp_all add: nx' pv')
      with Nil show ?thesis by simp
    next
      case (Cons c cs)
      with r have c: "nx (Buf i) = Buf c" "pv (Buf c) = Buf i" and t: "dl nx pv (Buf c) cs z"
        by auto
      have N: "N = Buf c" using c assms(6) by simp
      from Nil.prems Cons have d: "c \<noteq> i" "c \<notin> set cs" "i \<notin> set cs" "a \<noteq> Buf c" "z \<noteq> Buf c"
        "a \<notin> Buf ` set cs" "z \<notin> Buf ` set cs"
        by auto
      have "dl nx' pv' (Buf c) cs z = dl nx pv (Buf c) cs z"
        using d zi by (intro dl_frame) (auto simp: nx' pv' P N)
      with t have f: "dl nx' pv' (Buf c) cs z" by simp
      have "nx' a = Buf c" "pv' (Buf c) = a" using P N ai d by (simp_all add: nx' pv')
      with f Cons show ?thesis by simp
    qed
  next
    case (Cons x xs)
    then have a: "nx a = Buf x" "pv (Buf x) = a" and r: "dl nx pv (Buf x) (xs @ i # ys) z"
      by auto
    from Cons.prems have d: "distinct (xs @ i # ys)" "Buf x \<notin> Buf ` set (xs @ i # ys)"
        "z \<notin> Buf ` set (xs @ i # ys)" "a \<noteq> Buf i" "x \<noteq> i" "a \<noteq> Buf x" "a \<notin> Buf ` set xs"
        "x \<notin> set ys" "z \<noteq> Buf x"
      by auto
    have ih: "dl nx' pv' (Buf x) (xs @ ys) z"
      using r d(1-3) by (rule Cons.IH)
    have p: "P = last (Buf x # map Buf xs)" using r assms(5) by (simp only: dl_prev_of)
    have n: "N = hd (map Buf ys @ [z])" using r assms(6) by (simp only: dl_next_of)
    have pa: "P \<noteq> a"
    proof
      assume "P = a"
      with p have "a \<in> set (Buf x # map Buf xs)" using last_in_set [of "Buf x # map Buf xs"] by simp
      with d show False by auto
    qed
    have nb: "N \<noteq> Buf x"
    proof
      assume e: "N = Buf x"
      show False
      proof (cases ys)
        case Nil
        with n e d show ?thesis by simp
      next
        case (Cons c cs)
        with n e d show ?thesis by auto
      qed
    qed
    have "nx' a = Buf x" "pv' (Buf x) = a" using a pa nb d by (simp_all add: nx' pv')
    with ih show ?case by simp
  qed
  then show ?thesis by (simp add: nx'_def pv'_def)
qed

lemma dl_insert:
  assumes "dl nx pv a bs z" "b \<notin> set bs" "a \<noteq> Buf b" "z \<noteq> Buf b"
      and "a \<notin> Buf ` set bs" "z \<notin> Buf ` set bs" "distinct bs" "H = nx a"
  shows "dl ((nx(Buf b := H))(a := Buf b)) ((pv(Buf b := a))(H := Buf b)) a (b # bs) z"
proof -
  define nx' where "nx' = (nx(Buf b := H))(a := Buf b)"
  define pv' where "pv' = (pv(Buf b := a))(H := Buf b)"
  have nx': "nx' q = (if q = a then Buf b else if q = Buf b then H else nx q)" for q
    by (simp add: nx'_def)
  have pv': "pv' q = (if q = H then Buf b else if q = Buf b then a else pv q)" for q
    by (simp add: pv'_def)
  have "dl nx' pv' a (b # bs) z"
  proof (cases bs)
    case Nil
    with assms have H: "H = z" by simp
    have "nx' a = Buf b" "pv' (Buf b) = a" "nx' (Buf b) = z" "pv' z = Buf b"
      using H assms(3,4) by (simp_all add: nx' pv')
    with Nil show ?thesis by simp
  next
    case (Cons c cs)
    with assms have c: "nx a = Buf c" "pv (Buf c) = a" and t: "dl nx pv (Buf c) cs z"
      by auto
    have H: "H = Buf c" using c assms(8) by simp
    from assms Cons have d: "c \<noteq> b" "c \<notin> set cs" "b \<notin> set cs" "a \<noteq> Buf c" "z \<noteq> Buf c"
        "a \<notin> Buf ` set cs" "z \<notin> Buf ` set cs"
      by auto
    have "dl nx' pv' (Buf c) cs z = dl nx pv (Buf c) cs z"
      using d assms(3,4) by (intro dl_frame) (auto simp: nx' pv' H)
    with t have f: "dl nx' pv' (Buf c) cs z" by simp
    have "nx' a = Buf b" "pv' (Buf b) = a" "nx' (Buf b) = Buf c" "pv' (Buf c) = Buf b"
      using H d assms(3,4) by (simp_all add: nx' pv')
    with f Cons show ?thesis by simp
  qed
  then show ?thesis by (simp add: nx'_def pv'_def)
qed

lemma scan_dl:
  "dl (nxt s) (prv s) a bs (Bucket k) \<Longrightarrow>
     scan s k d bn (nxt s a) =
       Some (case find (hit s d bn) bs of None \<Rightarrow> NotFound | Some i \<Rightarrow> Found (Buf i))"
proof (induction bs arbitrary: a)
  case Nil
  then show ?case by simp
next
  case (Cons b bs)
  then have n: "nxt s a = Buf b" and r: "dl (nxt s) (prv s) (Buf b) bs (Bucket k)" by simp_all
  from Cons.IH [OF r] show ?case
    by (simp add: n scan_Buf hit_def)
qed

lemma on_bucket_of_list:
  assumes "dl (nxt s) (prv s) a bs (Bucket k)" "a = Bucket k \<or> on_bucket s k a" "b \<in> set bs"
  shows "on_bucket s k (Buf b)"
  using assms
proof (induction bs arbitrary: a)
  case Nil
  then show ?case by simp
next
  case (Cons c cs)
  then have n: "nxt s a = Buf c" and r: "dl (nxt s) (prv s) (Buf c) cs (Bucket k)" by simp_all
  have c: "on_bucket s k (Buf c)"
  proof (cases "a = Bucket k")
    case True
    with n on_bucket.first [of s k] show ?thesis by simp
  next
    case False
    with Cons.prems(2) have "on_bucket s k a" by simp
    with n on_bucket.later [of s k a] show ?thesis by simp
  qed
  show ?case
  proof (cases "b = c")
    case True
    with c show ?thesis by simp
  next
    case False
    with Cons.prems(3) have "b \<in> set cs" by simp
    with Cons.IH [OF r] c show ?thesis by simp
  qed
qed

lemma list_of_on_bucket:
  assumes "on_bucket s k p" "dl (nxt s) (prv s) (Bucket k) bs (Bucket k)"
  shows "p \<in> Buf ` set bs"
  using assms
proof (induction rule: on_bucket.induct)
  case first
  from dl_head [OF first.prems] first.hyps show ?case
    by (cases bs) auto
next
  case (later p)
  then obtain i where i: "p = Buf i" "i \<in> set bs" by auto
  then obtain xs ys where s: "bs = xs @ i # ys" by (auto simp: in_set_conv_decomp)
  from later.prems s have "nxt s (Buf i) = hd (map Buf ys @ [Bucket k])"
    using dl_next_of by blast
  with later.hyps i s show ?case
    by (cases ys) auto
qed

lemma on_bucket_iff:
  "bucket_list s k bs \<Longrightarrow> on_bucket s k p = (p \<in> Buf ` set bs)"
  using on_bucket_of_list [of s "Bucket k" bs k] list_of_on_bucket [of s k p bs]
  by (auto simp: bucket_list_def)

lemma bc_lists_binit: "bc_lists nbuf (binit nbuf bcache0) (\<lambda>k. [])"
  by (simp add: bc_lists_def bucket_list_def binit_bucket bcache0_def buf0_def)

lemma bc_inv_binit: "bc_inv nbuf (binit nbuf bcache0)"
  unfolding bc_inv_def using bc_lists_binit by blast

lemma bc_lists_elem:
  "bc_lists nbuf s L \<Longrightarrow> k < NBUCKET \<Longrightarrow> i \<in> set (L k) \<Longrightarrow>
     i < nbuf \<and> bkey (blockno (buf s i)) = k \<and> refcnt (buf s i) \<noteq> 0"
  unfolding bc_lists_def by blast

lemma bc_lists_zero:
  "bc_lists nbuf s L \<Longrightarrow> refcnt (buf s i) = 0 \<Longrightarrow> k < NBUCKET \<Longrightarrow> i \<notin> set (L k)"
  using bc_lists_elem by blast

lemma bc_lists_disj:
  "bc_lists nbuf s L \<Longrightarrow> k < NBUCKET \<Longrightarrow> k' < NBUCKET \<Longrightarrow> k \<noteq> k' \<Longrightarrow> i \<in> set (L k) \<Longrightarrow> i \<notin> set (L k')"
  using bc_lists_elem by blast

lemma bc_lists_linked:
  "bc_lists nbuf s L \<Longrightarrow> i < nbuf \<Longrightarrow> refcnt (buf s i) \<noteq> 0 \<Longrightarrow> i \<in> set (L (bkey (blockno (buf s i))))"
  by (auto simp: bc_lists_def)

lemma bc_lists_dl:
  "bc_lists nbuf s L \<Longrightarrow> k < NBUCKET \<Longrightarrow> dl (nxt s) (prv s) (Bucket k) (L k) (Bucket k) \<and> distinct (L k)"
  by (auto simp: bc_lists_def bucket_list_def)

lemma rebind_view:
  assumes "next (bucket s (bkey bn)) = H" "H \<noteq> Null"
  shows "\<exists>s1. rebind s b d bn = Inr s1
     \<and> nxt s1 = ((nxt s)(Buf b := H))(Bucket (bkey bn) := Buf b)
     \<and> prv s1 = ((prv s)(Buf b := Bucket (bkey bn)))(H := Buf b)
     \<and> (\<forall>j. refcnt (buf s1 j) = (if j = b then 1 else refcnt (buf s j)))
     \<and> (\<forall>j. blockno (buf s1 j) = (if j = b then bn else blockno (buf s j)))
     \<and> (\<forall>j. dev (buf s1 j) = (if j = b then d else dev (buf s j)))
     \<and> (\<forall>j. valid (buf s1 j) = (if j = b then 0 else valid (buf s j)))
     \<and> (\<forall>j. lock (buf s1 j) = lock (buf s j))"
proof (cases H)
  case Null
  with assms show ?thesis by simp
next
  case (Buf h)
  with assms(1) show ?thesis
    by (auto simp: rebind_def Let_def fun_eq_iff nxt_def prv_def deref_def split: bptr.splits)
next
  case (Bucket h)
  with assms(1) show ?thesis
    by (auto simp: rebind_def Let_def fun_eq_iff nxt_def prv_def deref_def split: bptr.splits)
qed

lemma unlink_view:
  assumes "next (buf s i) = N" "prev (buf s i) = P" "N \<noteq> Null" "P \<noteq> Null" "N \<noteq> Buf i" "P \<noteq> Buf i"
  shows "\<exists>s'. unlink s (Buf i) now = Inr s'
     \<and> nxt s' = ((nxt s)(P := N))(Buf i := Null)
     \<and> prv s' = ((prv s)(N := P))(Buf i := Null)
     \<and> (\<forall>j. refcnt (buf s' j) = refcnt (buf s j))
     \<and> (\<forall>j. blockno (buf s' j) = blockno (buf s j))
     \<and> (\<forall>j. dev (buf s' j) = dev (buf s j))
     \<and> (\<forall>j. lock (buf s' j) = lock (buf s j))
     \<and> ticks (buf s' i) = now"
proof -
  have "(\<exists>n. N = Buf n \<and> n \<noteq> i) \<or> (\<exists>n. N = Bucket n)" using assms(3,5) by (cases N) auto
  moreover have "(\<exists>p. P = Buf p \<and> p \<noteq> i) \<or> (\<exists>p. P = Bucket p)" using assms(4,6) by (cases P) auto
  ultimately show ?thesis
    using assms(1,2)
    by (elim disjE exE conjE)
       (auto simp: unlink_def fun_eq_iff nxt_def prv_def deref_def split: bptr.splits)
qed

lemma bc_lists_frame:
  assumes "bc_lists nbuf s L" "nxt s' = nxt s" "prv s' = prv s"
      and "\<forall>j. blockno (buf s' j) = blockno (buf s j)"
      and "\<forall>j. (refcnt (buf s' j) = 0) = (refcnt (buf s j) = 0)"
      and "\<forall>j<nbuf. refcnt (buf s' j) = 0 \<longrightarrow> lock (buf s' j) = None"
  shows "bc_lists nbuf s' L"
  using assms unfolding bc_lists_def bucket_list_def by simp

lemma dl_nodes:
  assumes "dl nx pv a (xs @ i # ys) z"
  shows "nx (Buf i) \<in> insert z (Buf ` set ys)" "pv (Buf i) \<in> insert a (Buf ` set xs)"
proof -
  have "nx (Buf i) = hd (map Buf ys @ [z])" using assms by (rule dl_next_of)
  then show "nx (Buf i) \<in> insert z (Buf ` set ys)" by (cases ys) auto
  have "pv (Buf i) = last (a # map Buf xs)" using assms by (rule dl_prev_of)
  moreover have "last (a # map Buf xs) \<in> set (a # map Buf xs)" by (rule last_in_set) simp
  ultimately show "pv (Buf i) \<in> insert a (Buf ` set xs)" by auto
qed

lemma bc_lists_insert:
  assumes inv: "bc_lists nbuf s L" and b: "b < nbuf" "refcnt (buf s b) = 0"
      and key: "key = bkey bn" and H: "H = nxt s (Bucket key)"
      and nx: "nxt s1 = ((nxt s)(Buf b := H))(Bucket key := Buf b)"
      and pv: "prv s1 = ((prv s)(Buf b := Bucket key))(H := Buf b)"
      and rc: "\<forall>j. refcnt (buf s1 j) = (if j = b then 1 else refcnt (buf s j))"
      and bl: "\<forall>j. blockno (buf s1 j) = (if j = b then bn else blockno (buf s j))"
      and lk: "\<forall>j. j \<noteq> b \<longrightarrow> lock (buf s1 j) = lock (buf s j)"
  shows "bc_lists nbuf s1 (L(key := b # L key))"
proof -
  have kk: "key < NBUCKET" using key by simp
  have bnot: "b \<notin> set (L k)" if "k < NBUCKET" for k
    using bc_lists_zero [OF inv b(2) that] .
  have dk: "dl (nxt s) (prv s) (Bucket key) (L key) (Bucket key)" "distinct (L key)"
    using bc_lists_dl [OF inv kk] by simp_all
  have Hin: "H \<in> insert (Bucket key) (Buf ` set (L key))"
    using dl_head [OF dk(1)] H by (cases "L key") auto
  have d1: "dl (nxt s1) (prv s1) (Bucket key) (b # L key) (Bucket key)"
    unfolding nx pv using dk bnot [OF kk] H by (intro dl_insert) auto
  have d2: "dl (nxt s1) (prv s1) (Bucket k) (L k) (Bucket k)" if k: "k < NBUCKET" "k \<noteq> key" for k
  proof -
    have o: "dl (nxt s) (prv s) (Bucket k) (L k) (Bucket k)" using bc_lists_dl [OF inv k(1)] by simp
    have hk: "H \<noteq> Bucket k" "H \<notin> Buf ` set (L k)"
      using Hin k bc_lists_disj [OF inv kk k(1)] by auto
    have "dl (nxt s1) (prv s1) (Bucket k) (L k) (Bucket k) = dl (nxt s) (prv s) (Bucket k) (L k) (Bucket k)"
      unfolding nx pv using k bnot [OF k(1)] hk by (intro dl_frame) auto
    with o show ?thesis by simp
  qed
  have e: "i < nbuf \<and> bkey (blockno (buf s1 i)) = k \<and> refcnt (buf s1 i) \<noteq> 0"
    if "k < NBUCKET" "i \<in> set ((L(key := b # L key)) k)" for k i
  proof (cases "i = b")
    case True
    with that bnot [OF that(1)] have "k = key" by (auto split: if_splits)
    with True b key rc bl show ?thesis by simp
  next
    case False
    with that have "i \<in> set (L k)" by (auto split: if_splits)
    from bc_lists_elem [OF inv that(1) this] False rc bl show ?thesis by simp
  qed
  have c: "i \<in> set ((L(key := b # L key)) (bkey (blockno (buf s1 i))))"
    if "i < nbuf" "refcnt (buf s1 i) \<noteq> 0" for i
  proof (cases "i = b")
    case True
    with bl key show ?thesis by simp
  next
    case False
    with that rc have "refcnt (buf s i) \<noteq> 0" by simp
    from bc_lists_linked [OF inv that(1) this] False bl show ?thesis by auto
  qed
  have l: "lock (buf s1 i) = None" if "i < nbuf" "refcnt (buf s1 i) = 0" for i
  proof -
    from that rc have "i \<noteq> b" by auto
    with that rc lk inv show ?thesis by (simp add: bc_lists_def)
  qed
  have bl': "bucket_list s1 k ((L(key := b # L key)) k)" if "k < NBUCKET" for k
  proof (cases "k = key")
    case True
    with d1 dk bnot [OF kk] show ?thesis by (simp add: bucket_list_def)
  next
    case False
    with d2 [OF that] bc_lists_dl [OF inv that] show ?thesis by (simp add: bucket_list_def)
  qed
  show ?thesis
    unfolding bc_lists_def using bl' e c l by blast
qed

lemma bc_lists_remove:
  assumes inv: "bc_lists nbuf s L" and k: "k < NBUCKET" and i: "i \<in> set (L k)"
      and P: "P = prv s (Buf i)" and N: "N = nxt s (Buf i)"
      and nx: "nxt s' = ((nxt s)(P := N))(Buf i := Null)"
      and pv: "prv s' = ((prv s)(N := P))(Buf i := Null)"
      and rc: "\<forall>j. refcnt (buf s' j) = (if j = i then 0 else refcnt (buf s j))"
      and bl: "\<forall>j. blockno (buf s' j) = blockno (buf s j)"
      and lk: "\<forall>j. lock (buf s' j) = (if j = i then None else lock (buf s j))"
  shows "bc_lists nbuf s' (L(k := remove1 i (L k)))"
proof -
  have dk: "dl (nxt s) (prv s) (Bucket k) (L k) (Bucket k)" "distinct (L k)"
    using bc_lists_dl [OF inv k] by simp_all
  from i obtain xs ys where s: "L k = xs @ i # ys" by (auto simp: in_set_conv_decomp)
  with dk have r: "remove1 i (L k) = xs @ ys" by (simp add: remove1_append)
  have PN: "N \<in> insert (Bucket k) (Buf ` set ys)" "P \<in> insert (Bucket k) (Buf ` set xs)"
    using dl_nodes [of "nxt s" "prv s" "Bucket k" xs i ys "Bucket k"] dk s P N by auto
  have d1: "dl (nxt s') (prv s') (Bucket k) (xs @ ys) (Bucket k)"
    unfolding nx pv using dk s P N by (intro dl_unlink) auto
  have d2: "dl (nxt s') (prv s') (Bucket k') (L k') (Bucket k')" if k': "k' < NBUCKET" "k' \<noteq> k" for k'
  proof -
    have o: "dl (nxt s) (prv s) (Bucket k') (L k') (Bucket k')" using bc_lists_dl [OF inv k'(1)] by simp
    have n: "j \<notin> set (L k')" if "j \<in> set (L k)" for j
      using bc_lists_disj [OF inv k k'(1) _ that] k' by simp
    have "P \<noteq> Bucket k'" "P \<notin> Buf ` set (L k')" "N \<noteq> Bucket k'" "N \<notin> Buf ` set (L k')"
         "Buf i \<notin> Buf ` set (L k')"
      using PN k' n s by auto
    then have "dl (nxt s') (prv s') (Bucket k') (L k') (Bucket k') = dl (nxt s) (prv s) (Bucket k') (L k') (Bucket k')"
      unfolding nx pv by (intro dl_frame) auto
    with o show ?thesis by simp
  qed
  have ik: "j \<noteq> i" if "k' < NBUCKET" "j \<in> set ((L(k := remove1 i (L k))) k')" for k' j
  proof (cases "k' = k")
    case True
    with that dk show ?thesis by auto
  next
    case False
    with that bc_lists_disj [OF inv k that(1) _ i] show ?thesis by auto
  qed
  have e: "j < nbuf \<and> bkey (blockno (buf s' j)) = k' \<and> refcnt (buf s' j) \<noteq> 0"
    if "k' < NBUCKET" "j \<in> set ((L(k := remove1 i (L k))) k')" for k' j
  proof -
    from that dk(2) have "j \<in> set (L k')" by (auto split: if_splits)
    from bc_lists_elem [OF inv that(1) this] ik [OF that] rc bl show ?thesis by simp
  qed
  have c: "j \<in> set ((L(k := remove1 i (L k))) (bkey (blockno (buf s' j))))"
    if "j < nbuf" "refcnt (buf s' j) \<noteq> 0" for j
  proof -
    from that rc have ji: "j \<noteq> i" "refcnt (buf s j) \<noteq> 0" by (auto split: if_splits)
    from bc_lists_linked [OF inv that(1) ji(2)] ji bl show ?thesis by auto
  qed
  have l: "lock (buf s' j) = None" if "j < nbuf" "refcnt (buf s' j) = 0" for j
    using that rc lk inv by (cases "j = i") (auto simp: bc_lists_def)
  have bl': "bucket_list s' k' ((L(k := remove1 i (L k))) k')" if "k' < NBUCKET" for k'
  proof (cases "k' = k")
    case True
    have "distinct (remove1 i (L k))" using dk(2) by (rule distinct_remove1)
    with d1 r True show ?thesis by (simp add: bucket_list_def)
  next
    case False
    with d2 [OF that] bc_lists_dl [OF inv that] show ?thesis by (simp add: bucket_list_def)
  qed
  show ?thesis
    unfolding bc_lists_def using bl' e c l by blast
qed

lemma nxt_prv_buf_upd:
  assumes "next v = next (buf s i)" "prev v = prev (buf s i)"
  shows "nxt (s\<lparr>buf := (buf s)(i := v)\<rparr>) = nxt s" "prv (s\<lparr>buf := (buf s)(i := v)\<rparr>) = prv s"
  using assms by (auto simp: fun_eq_iff nxt_def prv_def deref_def split: bptr.splits)

lemma find_hit_None:
  assumes "bc_lists nbuf s L"
  shows "(find (hit s d bn) (L (bkey bn)) = None) = (\<forall>i<nbuf. refcnt (buf s i) \<noteq> 0 \<longrightarrow> \<not> hit s d bn i)"
proof
  assume n: "find (hit s d bn) (L (bkey bn)) = None"
  show "\<forall>i<nbuf. refcnt (buf s i) \<noteq> 0 \<longrightarrow> \<not> hit s d bn i"
  proof (intro allI impI notI)
    fix i assume i: "i < nbuf" "refcnt (buf s i) \<noteq> 0" "hit s d bn i"
    from bc_lists_linked [OF assms i(1,2)] i(3) have "i \<in> set (L (bkey bn))" by (simp add: hit_def)
    with n i(3) show False by (simp add: find_None_iff)
  qed
next
  assume a: "\<forall>i<nbuf. refcnt (buf s i) \<noteq> 0 \<longrightarrow> \<not> hit s d bn i"
  have "\<not> hit s d bn i" if "i \<in> set (L (bkey bn))" for i
    using bc_lists_elem [OF assms bkey_less that] a by simp
  then show "find (hit s d bn) (L (bkey bn)) = None" by (simp add: find_None_iff)
qed

lemma bget_cached:
  assumes inv: "bc_lists nbuf s L" and f: "find (hit s d bn) (L (bkey bn)) = Some i"
  shows "bget nbuf pid d bn s =
      Some (if lock (buf s i) = None
            then Inr (Buf i, s\<lparr>buf := (buf s)(i := (buf s i)\<lparr>refcnt := refcnt (buf s i) + 1, lock := Some pid\<rparr>)\<rparr>)
            else Inl Blocked)"
    and "i < nbuf" and "hit s d bn i" and "refcnt (buf s i) \<noteq> 0"
proof -
  have d: "dl (nxt s) (prv s) (Bucket (bkey bn)) (L (bkey bn)) (Bucket (bkey bn))"
    using bc_lists_dl [OF inv bkey_less] by simp
  from scan_dl [OF d, of d bn] f
  have sc: "scan s (bkey bn) d bn (next (bucket s (bkey bn))) = Some (Found (Buf i))" by simp
  show "bget nbuf pid d bn s =
      Some (if lock (buf s i) = None
            then Inr (Buf i, s\<lparr>buf := (buf s)(i := (buf s i)\<lparr>refcnt := refcnt (buf s i) + 1, lock := Some pid\<rparr>)\<rparr>)
            else Inl Blocked)"
    by (simp add: bget_def sc acquiresleep_Buf)
  from f have m: "i \<in> set (L (bkey bn))" "hit s d bn i" by (auto simp: find_Some_iff)
  from bc_lists_elem [OF inv bkey_less m(1)] show "i < nbuf" "refcnt (buf s i) \<noteq> 0" by simp_all
  from m show "hit s d bn i" by simp
qed

lemma bget_uncached:
  assumes inv: "bc_lists nbuf s L" and f: "find (hit s d bn) (L (bkey bn)) = None"
  shows "(\<forall>j<nbuf. refcnt (buf s j) \<noteq> 0) \<Longrightarrow> bget nbuf pid d bn s = Some (Inl (Panic ''bget: no buffers''))"
    and "(\<exists>j<nbuf. refcnt (buf s j) = 0) \<Longrightarrow>
          \<exists>b s'. bget nbuf pid d bn s = Some (Inr (Buf b, s')) \<and> lru_loop s 0 nbuf None = Some b
            \<and> b < nbuf \<and> refcnt (buf s b) = 0
            \<and> bc_lists nbuf s' (L(bkey bn := b # L (bkey bn)))
            \<and> dev (buf s' b) = d \<and> blockno (buf s' b) = bn \<and> refcnt (buf s' b) = 1
            \<and> valid (buf s' b) = 0 \<and> lock (buf s' b) = Some pid"
proof -
  have d: "dl (nxt s) (prv s) (Bucket (bkey bn)) (L (bkey bn)) (Bucket (bkey bn))"
    using bc_lists_dl [OF inv bkey_less] by simp
  from scan_dl [OF d, of d bn] f
  have sc: "scan s (bkey bn) d bn (next (bucket s (bkey bn))) = Some NotFound" by simp
  have g: "bget nbuf pid d bn s =
     Some (case lru_loop s 0 nbuf None of
             None \<Rightarrow> Inl (Panic ''bget: no buffers'')
           | Some b \<Rightarrow> (case rebind s b d bn of
                 Inl e \<Rightarrow> Inl e
               | Inr s1 \<Rightarrow> (case acquiresleep pid s1 (Buf b) of
                     Inl e \<Rightarrow> Inl e | Inr s2 \<Rightarrow> Inr (Buf b, s2))))"
    by (simp add: bget_def sc)
  show "bget nbuf pid d bn s = Some (Inl (Panic ''bget: no buffers''))" if "\<forall>j<nbuf. refcnt (buf s j) \<noteq> 0"
    using that g lru_None_iff [of s nbuf] by simp
  show "\<exists>b s'. bget nbuf pid d bn s = Some (Inr (Buf b, s')) \<and> lru_loop s 0 nbuf None = Some b
            \<and> b < nbuf \<and> refcnt (buf s b) = 0
            \<and> bc_lists nbuf s' (L(bkey bn := b # L (bkey bn)))
            \<and> dev (buf s' b) = d \<and> blockno (buf s' b) = bn \<and> refcnt (buf s' b) = 1
            \<and> valid (buf s' b) = 0 \<and> lock (buf s' b) = Some pid"
    if "\<exists>j<nbuf. refcnt (buf s j) = 0"
  proof -
    from that obtain b where b: "lru_loop s 0 nbuf None = Some b"
      using lru_None_iff [of s nbuf] by (cases "lru_loop s 0 nbuf None") auto
    with best_lru [of s nbuf] have bb: "b < nbuf" "refcnt (buf s b) = 0"
      by (simp_all add: best_def)
    define H where "H = next (bucket s (bkey bn))"
    have Hn: "H \<noteq> Null" using dl_head [OF d] by (cases "L (bkey bn)") (auto simp: H_def)
    from rebind_view [OF H_def [symmetric] Hn, of b d]
    obtain s1 where r: "rebind s b d bn = Inr s1"
      and nx: "nxt s1 = ((nxt s)(Buf b := H))(Bucket (bkey bn) := Buf b)"
      and pv: "prv s1 = ((prv s)(Buf b := Bucket (bkey bn)))(H := Buf b)"
      and rc: "\<forall>j. refcnt (buf s1 j) = (if j = b then 1 else refcnt (buf s j))"
      and bl: "\<forall>j. blockno (buf s1 j) = (if j = b then bn else blockno (buf s j))"
      and dv: "\<forall>j. dev (buf s1 j) = (if j = b then d else dev (buf s j))"
      and va: "\<forall>j. valid (buf s1 j) = (if j = b then 0 else valid (buf s j))"
      and lk: "\<forall>j. lock (buf s1 j) = lock (buf s j)"
      by blast
    have "lock (buf s b) = None" using inv bb by (simp add: bc_lists_def)
    with lk have l1: "lock (buf s1 b) = None" by simp
    define s2 where "s2 = s1\<lparr>buf := (buf s1)(b := (buf s1 b)\<lparr>lock := Some pid\<rparr>)\<rparr>"
    have a: "acquiresleep pid s1 (Buf b) = Inr s2" using l1 by (simp add: acquiresleep_Buf s2_def)
    have g2: "bget nbuf pid d bn s = Some (Inr (Buf b, s2))" using g b r a by simp
    have nx2: "nxt s2 = nxt s1" "prv s2 = prv s1"
      unfolding s2_def by (rule nxt_prv_buf_upd; simp)+
    have f2: "\<forall>j. refcnt (buf s2 j) = (if j = b then 1 else refcnt (buf s j))"
      "\<forall>j. blockno (buf s2 j) = (if j = b then bn else blockno (buf s j))"
      "\<forall>j. j \<noteq> b \<longrightarrow> lock (buf s2 j) = lock (buf s j)"
      using rc bl lk by (simp_all add: s2_def)
    have i2: "bc_lists nbuf s2 (L(bkey bn := b # L (bkey bn)))"
      using inv bb refl _ _ _ f2
    proof (rule bc_lists_insert)
      show "H = nxt s (Bucket (bkey bn))" by (simp add: H_def)
      show "nxt s2 = ((nxt s)(Buf b := H))(Bucket (bkey bn) := Buf b)" using nx nx2 by simp
      show "prv s2 = ((prv s)(Buf b := Bucket (bkey bn)))(H := Buf b)" using pv nx2 by simp
    qed
    have "dev (buf s2 b) = d" "blockno (buf s2 b) = bn" "refcnt (buf s2 b) = 1"
      "valid (buf s2 b) = 0" "lock (buf s2 b) = Some pid"
      using rc bl dv va by (simp_all add: s2_def)
    with g2 b bb i2 show ?thesis by blast
  qed
qed

lemma brelse_eq:
  assumes "holdingsleep pid (buf s i)"
  shows "brelse pid now (Buf i) s =
     (if refcnt (buf s i) - 1 = 0
      then unlink (s\<lparr>buf := (buf s)(i := (buf s i)\<lparr>lock := None, refcnt := refcnt (buf s i) - 1\<rparr>)\<rparr>) (Buf i) now
      else Inr (s\<lparr>buf := (buf s)(i := (buf s i)\<lparr>lock := None, refcnt := refcnt (buf s i) - 1\<rparr>)\<rparr>))"
  using assms by (simp add: brelse_def releasesleep_def)

lemma brelse_unlinks:
  assumes h: "holdingsleep pid (buf s i)" and z: "refcnt (buf s i) - 1 = 0"
      and d: "dl (nxt s) (prv s) (Bucket k) bs (Bucket k)" "distinct bs" and i: "i \<in> set bs"
  shows "\<exists>s'. brelse pid now (Buf i) s = Inr s'
     \<and> nxt s' = ((nxt s)(prv s (Buf i) := nxt s (Buf i)))(Buf i := Null)
     \<and> prv s' = ((prv s)(nxt s (Buf i) := prv s (Buf i)))(Buf i := Null)
     \<and> (\<forall>j. refcnt (buf s' j) = (if j = i then 0 else refcnt (buf s j)))
     \<and> (\<forall>j. blockno (buf s' j) = blockno (buf s j))
     \<and> (\<forall>j. dev (buf s' j) = dev (buf s j))
     \<and> (\<forall>j. lock (buf s' j) = (if j = i then None else lock (buf s j)))
     \<and> ticks (buf s' i) = now
     \<and> dl (nxt s') (prv s') (Bucket k) (remove1 i bs) (Bucket k)"
proof -
  define s2 where "s2 = s\<lparr>buf := (buf s)(i := (buf s i)\<lparr>lock := None, refcnt := refcnt (buf s i) - 1\<rparr>)\<rparr>"
  have n2: "nxt s2 = nxt s" "prv s2 = prv s"
    unfolding s2_def by (rule nxt_prv_buf_upd; simp)+
  from i obtain xs ys where s: "bs = xs @ i # ys" by (auto simp: in_set_conv_decomp)
  with d have r: "remove1 i bs = xs @ ys" by (simp add: remove1_append)
  have PN: "nxt s (Buf i) \<in> insert (Bucket k) (Buf ` set ys)" "prv s (Buf i) \<in> insert (Bucket k) (Buf ` set xs)"
    using dl_nodes [of "nxt s" "prv s" "Bucket k" xs i ys "Bucket k"] d s by auto
  with d s have ne: "nxt s (Buf i) \<noteq> Null" "prv s (Buf i) \<noteq> Null" "nxt s (Buf i) \<noteq> Buf i" "prv s (Buf i) \<noteq> Buf i"
    by auto
  have "next (buf s2 i) = nxt s (Buf i)" "prev (buf s2 i) = prv s (Buf i)" by (simp_all add: s2_def)
  from unlink_view [OF this ne, of now]
  obtain s' where u: "unlink s2 (Buf i) now = Inr s'"
    and nx: "nxt s' = ((nxt s2)(prv s (Buf i) := nxt s (Buf i)))(Buf i := Null)"
    and pv: "prv s' = ((prv s2)(nxt s (Buf i) := prv s (Buf i)))(Buf i := Null)"
    and rc: "\<forall>j. refcnt (buf s' j) = refcnt (buf s2 j)"
    and bl: "\<forall>j. blockno (buf s' j) = blockno (buf s2 j)"
    and dv: "\<forall>j. dev (buf s' j) = dev (buf s2 j)"
    and lk: "\<forall>j. lock (buf s' j) = lock (buf s2 j)"
    and tk: "ticks (buf s' i) = now"
    by blast
  have b: "brelse pid now (Buf i) s = Inr s'"
    using brelse_eq [OF h, of now] z u by (simp add: s2_def)
  have dl': "dl (nxt s') (prv s') (Bucket k) (xs @ ys) (Bucket k)"
    unfolding nx pv n2 using d s by (intro dl_unlink) auto
  have f: "\<forall>j. refcnt (buf s' j) = (if j = i then 0 else refcnt (buf s j))"
    "\<forall>j. blockno (buf s' j) = blockno (buf s j)" "\<forall>j. dev (buf s' j) = dev (buf s j)"
    "\<forall>j. lock (buf s' j) = (if j = i then None else lock (buf s j))"
    using rc bl dv lk z by (simp_all add: s2_def)
  show ?thesis
    using b nx pv f tk dl' unfolding n2 r by blast
qed

lemma brelse_inv:
  assumes inv: "bc_lists nbuf s L" and i: "i < nbuf" and h: "holdingsleep pid (buf s i)"
  shows "\<exists>s'. brelse pid now (Buf i) s = Inr s'
     \<and> bc_lists nbuf s' (if refcnt (buf s i) - 1 = 0
          then L(bkey (blockno (buf s i)) := remove1 i (L (bkey (blockno (buf s i))))) else L)"
proof -
  from h have "lock (buf s i) \<noteq> None" by (simp add: holdingsleep_def)
  with inv i have nz: "refcnt (buf s i) \<noteq> 0" by (auto simp: bc_lists_def)
  define k where "k = bkey (blockno (buf s i))"
  have k: "k < NBUCKET" by (simp add: k_def)
  have m: "i \<in> set (L k)" using bc_lists_linked [OF inv i nz] by (simp add: k_def)
  show ?thesis
  proof (cases "refcnt (buf s i) - 1 = 0")
    case True
    from brelse_unlinks [OF h True _ _ m, of k now] bc_lists_dl [OF inv k]
    obtain s' where b: "brelse pid now (Buf i) s = Inr s'"
      and nx: "nxt s' = ((nxt s)(prv s (Buf i) := nxt s (Buf i)))(Buf i := Null)"
      and pv: "prv s' = ((prv s)(nxt s (Buf i) := prv s (Buf i)))(Buf i := Null)"
      and rc: "\<forall>j. refcnt (buf s' j) = (if j = i then 0 else refcnt (buf s j))"
      and bl: "\<forall>j. blockno (buf s' j) = blockno (buf s j)"
      and lk: "\<forall>j. lock (buf s' j) = (if j = i then None else lock (buf s j))"
      by blast
    have "bc_lists nbuf s' (L(k := remove1 i (L k)))"
      using inv k m refl refl nx pv rc bl lk by (rule bc_lists_remove)
    with b True show ?thesis by (simp add: k_def)
  next
    case False
    define s2 where "s2 = s\<lparr>buf := (buf s)(i := (buf s i)\<lparr>lock := None, refcnt := refcnt (buf s i) - 1\<rparr>)\<rparr>"
    have b: "brelse pid now (Buf i) s = Inr s2"
      using brelse_eq [OF h, of now] False by (simp add: s2_def)
    have "bc_lists nbuf s2 L"
      using inv
    proof (rule bc_lists_frame)
      show "nxt s2 = nxt s" "prv s2 = prv s" unfolding s2_def by (rule nxt_prv_buf_upd; simp)+
      show "\<forall>j. blockno (buf s2 j) = blockno (buf s j)" by (simp add: s2_def)
      show "\<forall>j. (refcnt (buf s2 j) = 0) = (refcnt (buf s j) = 0)" using False nz by (simp add: s2_def)
      show "\<forall>j<nbuf. refcnt (buf s2 j) = 0 \<longrightarrow> lock (buf s2 j) = None"
        using inv False by (simp add: s2_def bc_lists_def)
    qed
    with b False show ?thesis by auto
  qed
qed

lemma bc_lists_on_bucket:
  "bc_lists nbuf s L \<Longrightarrow> k < NBUCKET \<Longrightarrow> on_bucket s k (Buf i) = (i \<in> set (L k))"
  using on_bucket_iff [of s k "L k" "Buf i"] by (auto simp: bc_lists_def)

text \<open>
  C7. \<^verbatim>\<open>brelse\<close>, called by the holder of the buffer's sleep lock, releases the lock and
  takes one from the reference count. When the result is not zero nothing else changes:
  the links and \<^verbatim>\<open>ticks\<close> are as before. When the result is zero and the buffer is
  linked into the list of a bucket, it is taken out of that list (the list keeps its
  other buffers in their order, and the walk from the head no longer meets the buffer),
  its \<^verbatim>\<open>prev\<close> and \<^verbatim>\<open>next\<close> are null and its \<^verbatim>\<open>ticks\<close> is the current time.
\<close>

theorem brelse_spec:
  assumes "holdingsleep pid (buf s i)"
  shows "(refcnt (buf s i) - 1 \<noteq> 0 \<longrightarrow>
           brelse pid now (Buf i) s =
             Inr (s\<lparr>buf := (buf s)(i := (buf s i)\<lparr>lock := None, refcnt := refcnt (buf s i) - 1\<rparr>)\<rparr>))
       \<and> (refcnt (buf s i) - 1 = 0 \<and> bucket_list s k bs \<and> i \<in> set bs \<longrightarrow>
           (\<exists>s'. brelse pid now (Buf i) s = Inr s'
              \<and> refcnt (buf s' i) = 0 \<and> lock (buf s' i) = None
              \<and> prev (buf s' i) = Null \<and> next (buf s' i) = Null \<and> ticks (buf s' i) = now
              \<and> dev (buf s' i) = dev (buf s i) \<and> blockno (buf s' i) = blockno (buf s i)
              \<and> bucket_list s' k (remove1 i bs) \<and> \<not> on_bucket s' k (Buf i)))"
proof (intro conjI impI)
  assume "refcnt (buf s i) - 1 \<noteq> 0"
  then show "brelse pid now (Buf i) s =
             Inr (s\<lparr>buf := (buf s)(i := (buf s i)\<lparr>lock := None, refcnt := refcnt (buf s i) - 1\<rparr>)\<rparr>)"
    using brelse_eq [OF assms, of now] by simp
next
  assume a: "refcnt (buf s i) - 1 = 0 \<and> bucket_list s k bs \<and> i \<in> set bs"
  then have d: "dl (nxt s) (prv s) (Bucket k) bs (Bucket k)" "distinct bs" and i: "i \<in> set bs"
    and z: "refcnt (buf s i) - 1 = 0"
    by (simp_all add: bucket_list_def)
  from brelse_unlinks [OF assms z d i, of now]
  obtain s' where b: "brelse pid now (Buf i) s = Inr s'"
    and nx: "nxt s' = ((nxt s)(prv s (Buf i) := nxt s (Buf i)))(Buf i := Null)"
    and pv: "prv s' = ((prv s)(nxt s (Buf i) := prv s (Buf i)))(Buf i := Null)"
    and rc: "\<forall>j. refcnt (buf s' j) = (if j = i then 0 else refcnt (buf s j))"
    and bl: "\<forall>j. blockno (buf s' j) = blockno (buf s j)"
    and dv: "\<forall>j. dev (buf s' j) = dev (buf s j)"
    and lk: "\<forall>j. lock (buf s' j) = (if j = i then None else lock (buf s j))"
    and tk: "ticks (buf s' i) = now"
    and dl': "dl (nxt s') (prv s') (Bucket k) (remove1 i bs) (Bucket k)"
    by blast
  have l: "bucket_list s' k (remove1 i bs)"
    using dl' d(2) by (simp add: bucket_list_def)
  have "nxt s' (Buf i) = Null" "prv s' (Buf i) = Null" by (simp_all add: nx pv)
  then have p: "next (buf s' i) = Null" "prev (buf s' i) = Null" by simp_all
  have o: "\<not> on_bucket s' k (Buf i)"
    using on_bucket_iff [OF l, of "Buf i"] d(2) by auto
  show "\<exists>s'. brelse pid now (Buf i) s = Inr s'
              \<and> refcnt (buf s' i) = 0 \<and> lock (buf s' i) = None
              \<and> prev (buf s' i) = Null \<and> next (buf s' i) = Null \<and> ticks (buf s' i) = now
              \<and> dev (buf s' i) = dev (buf s i) \<and> blockno (buf s' i) = blockno (buf s i)
              \<and> bucket_list s' k (remove1 i bs) \<and> \<not> on_bucket s' k (Buf i)"
    using b rc lk p tk dv bl l o by auto
qed

lemma bc_lists_bucket:
  "bc_lists nbuf s L \<Longrightarrow> k < NBUCKET \<Longrightarrow> bucket_list s k (L k)"
  by (simp add: bc_lists_def)

lemma bget_first:
  assumes "0 < nbuf"
  shows "\<exists>b s'. bget nbuf pid d bn (binit nbuf bcache0) = Some (Inr (Buf b, s'))
            \<and> b < nbuf
            \<and> bc_lists nbuf s' ((\<lambda>k. [])(bkey bn := [b]))
            \<and> dev (buf s' b) = d \<and> blockno (buf s' b) = bn \<and> refcnt (buf s' b) = 1
            \<and> valid (buf s' b) = 0 \<and> lock (buf s' b) = Some pid"
proof -
  have z: "\<exists>j<nbuf. refcnt (buf (binit nbuf bcache0) j) = 0"
    using assms by (auto simp: bcache0_def buf0_def)
  from bget_uncached(2) [OF bc_lists_binit _ z, of d bn pid]
  show ?thesis by auto
qed

theorem brelse_spec_witness:
  "brelse 7 5 (Buf 0) (bcache0\<lparr>buf := (\<lambda>i. buf0\<lparr>lock := Some 7, refcnt := 2\<rparr>)\<rparr>) =
     Inr (bcache0\<lparr>buf := (\<lambda>i. buf0\<lparr>lock := Some 7, refcnt := 2\<rparr>)(0 := buf0\<lparr>lock := None, refcnt := 1\<rparr>)\<rparr>)
   \<and> (\<exists>b s1 s2. bget 2 7 1 10 (binit 2 bcache0) = Some (Inr (Buf b, s1))
         \<and> holdingsleep 7 (buf s1 b) \<and> refcnt (buf s1 b) = 1 \<and> on_bucket s1 (bkey 10) (Buf b)
         \<and> brelse 7 5 (Buf b) s1 = Inr s2
         \<and> refcnt (buf s2 b) = 0 \<and> next (buf s2 b) = Null \<and> prev (buf s2 b) = Null
         \<and> ticks (buf s2 b) = 5 \<and> \<not> on_bucket s2 (bkey 10) (Buf b))"
proof
  let ?s = "bcache0\<lparr>buf := (\<lambda>i. buf0\<lparr>lock := Some 7, refcnt := 2\<rparr>)\<rparr>"
  have h: "holdingsleep 7 (buf ?s 0)" by (simp add: holdingsleep_def)
  from brelse_spec [OF h, of 5 0 "[]"]
  show "brelse 7 5 (Buf 0) ?s =
     Inr (bcache0\<lparr>buf := (\<lambda>i. buf0\<lparr>lock := Some 7, refcnt := 2\<rparr>)(0 := buf0\<lparr>lock := None, refcnt := 1\<rparr>)\<rparr>)"
    by (simp add: buf0_def)
next
  from bget_first [of 2 7 1 10]
  obtain b s1 where g: "bget 2 7 1 10 (binit 2 bcache0) = Some (Inr (Buf b, s1))"
    and i: "bc_lists 2 s1 ((\<lambda>k. [])(bkey 10 := [b]))"
    and f: "refcnt (buf s1 b) = 1" "lock (buf s1 b) = Some 7"
    by auto
  have h: "holdingsleep 7 (buf s1 b)" using f by (simp add: holdingsleep_def)
  have l: "bucket_list s1 (bkey 10) [b]" using bc_lists_bucket [OF i bkey_less, of 10] by simp
  have o: "on_bucket s1 (bkey 10) (Buf b)" using on_bucket_iff [OF l, of "Buf b"] by simp
  from brelse_spec [OF h, of 5 "bkey 10" "[b]"] f l
  obtain s2 where "brelse 7 5 (Buf b) s1 = Inr s2"
         "refcnt (buf s2 b) = 0" "next (buf s2 b) = Null" "prev (buf s2 b) = Null"
         "ticks (buf s2 b) = 5" "\<not> on_bucket s2 (bkey 10) (Buf b)"
    by auto
  with g h f o show "\<exists>b s1 s2. bget 2 7 1 10 (binit 2 bcache0) = Some (Inr (Buf b, s1))
         \<and> holdingsleep 7 (buf s1 b) \<and> refcnt (buf s1 b) = 1 \<and> on_bucket s1 (bkey 10) (Buf b)
         \<and> brelse 7 5 (Buf b) s1 = Inr s2
         \<and> refcnt (buf s2 b) = 0 \<and> next (buf s2 b) = Null \<and> prev (buf s2 b) = Null
         \<and> ticks (buf s2 b) = 5 \<and> \<not> on_bucket s2 (bkey 10) (Buf b)"
    by blast
qed

lemma bget_hit_inv:
  assumes inv: "bc_lists nbuf s L" and i: "i < nbuf" "refcnt (buf s i) \<noteq> 0" "refcnt (buf s i) + 1 \<noteq> 0"
  shows "bc_lists nbuf (s\<lparr>buf := (buf s)(i := (buf s i)\<lparr>refcnt := refcnt (buf s i) + 1, lock := lk\<rparr>)\<rparr>) L"
  using inv
proof (rule bc_lists_frame)
  let ?s = "s\<lparr>buf := (buf s)(i := (buf s i)\<lparr>refcnt := refcnt (buf s i) + 1, lock := lk\<rparr>)\<rparr>"
  show "nxt ?s = nxt s" "prv ?s = prv s" by (rule nxt_prv_buf_upd; simp)+
  show "\<forall>j. blockno (buf ?s j) = blockno (buf s j)" by simp
  show "\<forall>j. (refcnt (buf ?s j) = 0) = (refcnt (buf s j) = 0)" using i by simp
  show "\<forall>j<nbuf. refcnt (buf ?s j) = 0 \<longrightarrow> lock (buf ?s j) = None"
    using inv i by (simp add: bc_lists_def)
qed

text \<open>
  C8. In a state of the cache between proper calls, \<^verbatim>\<open>bget\<close> panics exactly when no
  buffer of the pool carries the requested key and every buffer has a reference count
  other than zero. When some buffer has reference count zero, either a buffer with the
  key is in use, and \<^verbatim>\<open>bget\<close> returns it with its count incremented (or sleeps on its
  lock when that is held); or no buffer in use has the key, and \<^verbatim>\<open>bget\<close> returns a buffer
  whose count was zero, now bound to the key with count one.
\<close>

theorem bget_panic_spec:
  assumes "bc_inv nbuf s"
  shows "((\<exists>msg. bget nbuf pid d bn s = Some (Inl (Panic msg)))
          = ((\<forall>i<nbuf. \<not> (dev (buf s i) = d \<and> blockno (buf s i) = bn)) \<and> (\<forall>i<nbuf. refcnt (buf s i) \<noteq> 0)))
     \<and> ((\<exists>j<nbuf. refcnt (buf s j) = 0) \<longrightarrow>
          (\<exists>i<nbuf. dev (buf s i) = d \<and> blockno (buf s i) = bn \<and> refcnt (buf s i) \<noteq> 0
              \<and> bget nbuf pid d bn s =
                  Some (if lock (buf s i) = None
                        then Inr (Buf i, s\<lparr>buf := (buf s)(i := (buf s i)\<lparr>refcnt := refcnt (buf s i) + 1,
                                                                       lock := Some pid\<rparr>)\<rparr>)
                        else Inl Blocked))
          \<or> ((\<forall>i<nbuf. refcnt (buf s i) \<noteq> 0 \<longrightarrow> \<not> (dev (buf s i) = d \<and> blockno (buf s i) = bn))
              \<and> (\<exists>b s'. bget nbuf pid d bn s = Some (Inr (Buf b, s')) \<and> b < nbuf
                    \<and> refcnt (buf s b) = 0 \<and> dev (buf s' b) = d \<and> blockno (buf s' b) = bn
                    \<and> refcnt (buf s' b) = 1 \<and> bc_inv nbuf s')))"
proof -
  from assms obtain L where inv: "bc_lists nbuf s L" by (auto simp: bc_inv_def)
  show ?thesis
  proof (cases "find (hit s d bn) (L (bkey bn))")
    case (Some i)
    note c = bget_cached(1) [OF inv Some, of pid] bget_cached(2-4) [OF inv Some]
    from c have np: "\<not> (\<exists>msg. bget nbuf pid d bn s = Some (Inl (Panic msg)))"
      by (auto split: if_splits)
    from c(2,3) have nr: "\<not> (\<forall>i<nbuf. \<not> (dev (buf s i) = d \<and> blockno (buf s i) = bn))"
      by (auto simp: hit_def)
    have "\<exists>i<nbuf. dev (buf s i) = d \<and> blockno (buf s i) = bn \<and> refcnt (buf s i) \<noteq> 0
              \<and> bget nbuf pid d bn s =
                  Some (if lock (buf s i) = None
                        then Inr (Buf i, s\<lparr>buf := (buf s)(i := (buf s i)\<lparr>refcnt := refcnt (buf s i) + 1,
                                                                       lock := Some pid\<rparr>)\<rparr>)
                        else Inl Blocked)"
      using c by (intro exI [of _ i]) (simp add: hit_def)
    with np nr show ?thesis by blast
  next
    case None
    note u = bget_uncached [OF inv None, where pid = pid]
    from None have nh: "\<forall>i<nbuf. refcnt (buf s i) \<noteq> 0 \<longrightarrow> \<not> (dev (buf s i) = d \<and> blockno (buf s i) = bn)"
      using find_hit_None [OF inv, of d bn] by (simp add: hit_def)
    show ?thesis
    proof (cases "\<forall>j<nbuf. refcnt (buf s j) \<noteq> 0")
      case True
      with u(1) nh show ?thesis by auto
    next
      case False
      then have z: "\<exists>j<nbuf. refcnt (buf s j) = 0" by simp
      from u(2) [OF z] obtain b s' where g: "bget nbuf pid d bn s = Some (Inr (Buf b, s'))"
        and p: "b < nbuf" "refcnt (buf s b) = 0" "dev (buf s' b) = d" "blockno (buf s' b) = bn"
               "refcnt (buf s' b) = 1"
        and i': "bc_lists nbuf s' (L(bkey bn := b # L (bkey bn)))"
        by blast
      from i' have "bc_inv nbuf s'" by (auto simp: bc_inv_def)
      with g p have r: "\<exists>b s'. bget nbuf pid d bn s = Some (Inr (Buf b, s')) \<and> b < nbuf
                    \<and> refcnt (buf s b) = 0 \<and> dev (buf s' b) = d \<and> blockno (buf s' b) = bn
                    \<and> refcnt (buf s' b) = 1 \<and> bc_inv nbuf s'"
        by blast
      from g have np: "\<not> (\<exists>msg. bget nbuf pid d bn s = Some (Inl (Panic msg)))" by simp
      from np False nh r show ?thesis by blast
    qed
  qed
qed

theorem bget_panic_spec_witness:
  "bc_inv 1 (binit 1 bcache0)
   \<and> (\<exists>b s1. bget 1 7 1 10 (binit 1 bcache0) = Some (Inr (Buf b, s1)) \<and> refcnt (buf s1 b) = 1
         \<and> dev (buf s1 b) = 1 \<and> blockno (buf s1 b) = 10 \<and> bc_inv 1 s1
         \<and> (\<exists>msg. bget 1 8 1 11 s1 = Some (Inl (Panic msg))))"
proof
  show i0: "bc_inv 1 (binit 1 bcache0)" by (rule bc_inv_binit)
  have z: "\<exists>j<1. refcnt (buf (binit 1 bcache0) j) = 0" by (simp add: bcache0_def buf0_def)
  from bget_panic_spec [OF i0, of 7 1 10, THEN conjunct2, THEN mp, OF z]
  obtain b s1 where g: "bget 1 7 1 10 (binit 1 bcache0) = Some (Inr (Buf b, s1))" "b < 1"
    and p: "dev (buf s1 b) = 1" "blockno (buf s1 b) = 10" "refcnt (buf s1 b) = 1" and i1: "bc_inv 1 s1"
    by (elim disjE exE conjE) (simp_all add: bcache0_def buf0_def)
  from g(2) have b0: "b = 0" by simp
  have "(\<forall>i<1. \<not> (dev (buf s1 i) = 1 \<and> blockno (buf s1 i) = 11)) \<and> (\<forall>i<1. refcnt (buf s1 i) \<noteq> 0)"
    using p b0 by simp
  with bget_panic_spec [OF i1, of 8 1 11, THEN conjunct1]
  have "\<exists>msg. bget 1 8 1 11 s1 = Some (Inl (Panic msg))" by (rule iffD2)
  with g p i1 show "\<exists>b s1. bget 1 7 1 10 (binit 1 bcache0) = Some (Inr (Buf b, s1)) \<and> refcnt (buf s1 b) = 1
         \<and> dev (buf s1 b) = 1 \<and> blockno (buf s1 b) = 10 \<and> bc_inv 1 s1
         \<and> (\<exists>msg. bget 1 8 1 11 s1 = Some (Inl (Panic msg)))"
    by blast
qed

lemma bc_inv_lock:
  "bc_inv nbuf s \<Longrightarrow> i < nbuf \<Longrightarrow> refcnt (buf s i) = 0 \<Longrightarrow> lock (buf s i) = None"
  by (auto simp: bc_inv_def bc_lists_def)

lemma bc_inv_upd:
  assumes inv: "bc_inv nbuf s" and p: "next v = next (buf s i)" "prev v = prev (buf s i)"
      and b: "blockno v = blockno (buf s i)" and r: "(refcnt v = 0) = (refcnt (buf s i) = 0)"
      and l: "i < nbuf \<Longrightarrow> refcnt v = 0 \<Longrightarrow> lock v = None"
  shows "bc_inv nbuf (s\<lparr>buf := (buf s)(i := v)\<rparr>)"
proof -
  from inv obtain L where L: "bc_lists nbuf s L" by (auto simp: bc_inv_def)
  have "bc_lists nbuf (s\<lparr>buf := (buf s)(i := v)\<rparr>) L"
    using L
  proof (rule bc_lists_frame)
    show "nxt (s\<lparr>buf := (buf s)(i := v)\<rparr>) = nxt s" "prv (s\<lparr>buf := (buf s)(i := v)\<rparr>) = prv s"
      using p by (rule nxt_prv_buf_upd)+
    show "\<forall>j. blockno (buf (s\<lparr>buf := (buf s)(i := v)\<rparr>) j) = blockno (buf s j)" using b by simp
    show "\<forall>j. (refcnt (buf (s\<lparr>buf := (buf s)(i := v)\<rparr>) j) = 0) = (refcnt (buf s j) = 0)"
      using r by simp
    show "\<forall>j<nbuf. refcnt (buf (s\<lparr>buf := (buf s)(i := v)\<rparr>) j) = 0 \<longrightarrow>
            lock (buf (s\<lparr>buf := (buf s)(i := v)\<rparr>) j) = None"
      using l L by (simp add: bc_lists_def)
  qed
  then show ?thesis by (auto simp: bc_inv_def)
qed

lemma bc_inv_env:
  assumes "bc_inv nbuf s" "buf s' = buf s" "bucket s' = bucket s"
  shows "bc_inv nbuf s'"
proof -
  from assms(1) obtain L where L: "bc_lists nbuf s L" by (auto simp: bc_inv_def)
  have "nxt s' = nxt s" "prv s' = prv s"
    using assms(2,3) by (auto simp: fun_eq_iff nxt_def prv_def deref_def split: bptr.splits)
  with L assms(2) have "bc_lists nbuf s' L"
    by (intro bc_lists_frame [OF L]) (simp_all add: bc_lists_def)
  then show ?thesis by (auto simp: bc_inv_def)
qed

lemma bget_inv:
  assumes inv: "bc_inv nbuf s" and p: "proper nbuf s (Bget pid d bn)"
  shows "bget nbuf pid d bn s = Some (Inl Blocked)
       \<or> (\<exists>msg. bget nbuf pid d bn s = Some (Inl (Panic msg)))
       \<or> (\<exists>i s'. bget nbuf pid d bn s = Some (Inr (Buf i, s')) \<and> i < nbuf \<and> bc_inv nbuf s')"
proof -
  from inv obtain L where L: "bc_lists nbuf s L" by (auto simp: bc_inv_def)
  show ?thesis
  proof (cases "find (hit s d bn) (L (bkey bn))")
    case (Some i)
    note c = bget_cached(1) [OF L Some, of pid] bget_cached(2-4) [OF L Some]
    from c(2,3) p have w: "refcnt (buf s i) + 1 \<noteq> 0" by (simp add: hit_def)
    have "bc_inv nbuf (s\<lparr>buf := (buf s)(i := (buf s i)\<lparr>refcnt := refcnt (buf s i) + 1, lock := Some pid\<rparr>)\<rparr>)"
      using inv c(4) w by (intro bc_inv_upd) simp_all
    with c(1,2) show ?thesis by (cases "lock (buf s i) = None") simp_all
  next
    case None
    note u = bget_uncached [OF L None, where pid = pid]
    show ?thesis
    proof (cases "\<forall>j<nbuf. refcnt (buf s j) \<noteq> 0")
      case True
      with u(1) show ?thesis by simp
    next
      case False
      then have "\<exists>j<nbuf. refcnt (buf s j) = 0" by simp
      from u(2) [OF this] obtain b s' where "bget nbuf pid d bn s = Some (Inr (Buf b, s'))" "b < nbuf"
        "bc_lists nbuf s' (L(bkey bn := b # L (bkey bn)))"
        by blast
      then show ?thesis unfolding bc_inv_def by blast
    qed
  qed
qed

lemma bread_inv:
  assumes inv: "bc_inv nbuf s" and p: "proper nbuf s (Bget pid d bn)"
  shows "bread nbuf pid d bn s = Some (Inl Blocked)
       \<or> (\<exists>msg. bread nbuf pid d bn s = Some (Inl (Panic msg)))
       \<or> (\<exists>i s'. bread nbuf pid d bn s = Some (Inr (Buf i, s')) \<and> i < nbuf \<and> bc_inv nbuf s')"
  using bget_inv [OF inv p]
proof (elim disjE exE conjE)
  assume "bget nbuf pid d bn s = Some (Inl Blocked)"
  then show ?thesis by (simp add: bread_def)
next
  fix msg assume "bget nbuf pid d bn s = Some (Inl (Panic msg))"
  then show ?thesis by (simp add: bread_def)
next
  fix i s1 assume g: "bget nbuf pid d bn s = Some (Inr (Buf i, s1))" and i: "i < nbuf" and i1: "bc_inv nbuf s1"
  show ?thesis
  proof (cases "valid (buf s1 i) = 0")
    case False
    with g i i1 show ?thesis by (simp add: bread_def)
  next
    case True
    define s2 where "s2 = s1\<lparr>buf := (buf s1)(i := (buf s1 i)\<lparr>data := disk s1 (dev (buf s1 i), blockno (buf s1 i)), valid := 1\<rparr>)\<rparr>"
    have r: "bread nbuf pid d bn s = Some (Inr (Buf i, s2\<lparr>io := io s1 @ [(Buf i, False)]\<rparr>))"
      using g True by (simp add: bread_def virtio_disk_rw_def s2_def)
    have "bc_inv nbuf s2" unfolding s2_def using i1 bc_inv_lock [OF i1 i] by (intro bc_inv_upd) simp_all
    then have "bc_inv nbuf (s2\<lparr>io := io s1 @ [(Buf i, False)]\<rparr>)" by (rule bc_inv_env) simp_all
    with r i show ?thesis by blast
  qed
qed

lemma bstep_inv:
  assumes inv: "bc_inv nbuf s" and p: "proper nbuf s c"
  shows "bstep nbuf c s = Some (Inl Blocked)
       \<or> (\<exists>msg. bstep nbuf c s = Some (Inl (Panic msg)))
       \<or> (\<exists>s'. bstep nbuf c s = Some (Inr s') \<and> bc_inv nbuf s')"
proof (cases c)
  case (Bget pid d bn)
  with bget_inv [OF inv, of pid d bn] p show ?thesis
    by (auto simp: bstep_def)
next
  case (Bread pid d bn)
  with bread_inv [OF inv, of pid d bn] p show ?thesis
    by (auto simp: bstep_def)
next
  case (Bwrite pid b)
  with p obtain i where i: "b = Buf i" "i < nbuf" by auto
  show ?thesis
  proof (cases "holdingsleep pid (buf s i)")
    case True
    have "bc_inv nbuf (s\<lparr>disk := (disk s)((dev (buf s i), blockno (buf s i)) := data (buf s i)),
                 io := io s @ [(Buf i, True)]\<rparr>)"
      using inv by (rule bc_inv_env) simp_all
    with True Bwrite i show ?thesis by (simp add: bstep_def bwrite_def virtio_disk_rw_def)
  next
    case False
    with Bwrite i show ?thesis by (simp add: bstep_def bwrite_def)
  qed
next
  case (Brelse pid now b)
  with p obtain i where i: "b = Buf i" "i < nbuf" by auto
  show ?thesis
  proof (cases "holdingsleep pid (buf s i)")
    case True
    from inv obtain L where L: "bc_lists nbuf s L" by (auto simp: bc_inv_def)
    from brelse_inv [OF L i(2) True, of now] Brelse i show ?thesis
      unfolding bc_inv_def bstep_def by auto
  next
    case False
    with Brelse i show ?thesis by (simp add: bstep_def brelse_def)
  qed
next
  case (Bpin b)
  with p obtain i where i: "b = Buf i" "i < nbuf" "refcnt (buf s i) \<noteq> 0" "refcnt (buf s i) + 1 \<noteq> 0"
    by auto
  have "bc_inv nbuf (s\<lparr>buf := (buf s)(i := (buf s i)\<lparr>refcnt := refcnt (buf s i) + 1\<rparr>)\<rparr>)"
    using inv i by (intro bc_inv_upd) simp_all
  with Bpin i show ?thesis by (simp add: bstep_def bpin_def)
next
  case (Bunpin b)
  with p obtain i where i: "b = Buf i" "i < nbuf" "refcnt (buf s i) \<noteq> 0" "refcnt (buf s i) - 1 \<noteq> 0"
    by auto
  have "bc_inv nbuf (s\<lparr>buf := (buf s)(i := (buf s i)\<lparr>refcnt := refcnt (buf s i) - 1\<rparr>)\<rparr>)"
    using inv i by (intro bc_inv_upd) simp_all
  with Bunpin i show ?thesis by (simp add: bstep_def bunpin_def)
qed

lemma brun_inv:
  assumes "bc_inv nbuf s" "proper_run nbuf cs s"
  shows "brun nbuf cs s = Some (Inl Blocked)
       \<or> (\<exists>msg. brun nbuf cs s = Some (Inl (Panic msg)))
       \<or> (\<exists>s'. brun nbuf cs s = Some (Inr s') \<and> bc_inv nbuf s')"
  using assms
proof (induction cs arbitrary: s)
  case Nil
  then show ?case by simp
next
  case (Cons c cs)
  then have p: "proper nbuf s c" by simp
  from bstep_inv [OF Cons.prems(1) p] show ?case
  proof (elim disjE exE conjE)
    assume "bstep nbuf c s = Some (Inl Blocked)"
    then show ?thesis by simp
  next
    fix msg assume "bstep nbuf c s = Some (Inl (Panic msg))"
    then show ?thesis by simp
  next
    fix s' assume s': "bstep nbuf c s = Some (Inr s')" "bc_inv nbuf s'"
    with Cons.prems(2) have "proper_run nbuf cs s'" by simp
    from Cons.IH [OF s'(2) this] s'(1) show ?thesis by simp
  qed
qed

lemma bc_inv_membership:
  assumes "bc_inv nbuf s" "i < nbuf"
  shows "if refcnt (buf s i) \<noteq> 0
         then on_bucket s (bkey (blockno (buf s i))) (Buf i)
            \<and> (\<forall>k<NBUCKET. on_bucket s k (Buf i) \<longrightarrow> k = bkey (blockno (buf s i)))
         else (\<forall>k<NBUCKET. \<not> on_bucket s k (Buf i))"
proof -
  from assms(1) obtain L where L: "bc_lists nbuf s L" by (auto simp: bc_inv_def)
  show ?thesis
  proof (cases "refcnt (buf s i) = 0")
    case True
    with bc_lists_zero [OF L True] bc_lists_on_bucket [OF L] show ?thesis by simp
  next
    case False
    from bc_lists_linked [OF L assms(2) False] bc_lists_on_bucket [OF L bkey_less]
    have a: "on_bucket s (bkey (blockno (buf s i))) (Buf i)" by simp
    have "k = bkey (blockno (buf s i))" if "k < NBUCKET" "on_bucket s k (Buf i)" for k
      using bc_lists_elem [OF L that(1), of i] bc_lists_on_bucket [OF L that(1), of i] that(2) by simp
    with a False show ?thesis by simp
  qed
qed

text \<open>
  C2, as amended. From \<^verbatim>\<open>binit\<close>, after any sequence of proper calls that has run to its
  end, a pool buffer whose reference count is not zero is linked into the bucket with
  index block number mod 17 and into no other, and a pool buffer whose reference count
  is zero is linked into no bucket. Such a sequence never walks a list forever and never
  dereferences the null pointer.
\<close>

theorem bucket_membership:
  assumes "proper_run nbuf cs (binit nbuf bcache0)"
  shows "brun nbuf cs (binit nbuf bcache0) \<noteq> None
     \<and> brun nbuf cs (binit nbuf bcache0) \<noteq> Some (Inl NullDeref)
     \<and> (\<forall>s i. brun nbuf cs (binit nbuf bcache0) = Some (Inr s) \<and> i < nbuf \<longrightarrow>
          (if refcnt (buf s i) \<noteq> 0
           then on_bucket s (bkey (blockno (buf s i))) (Buf i)
              \<and> (\<forall>k<NBUCKET. on_bucket s k (Buf i) \<longrightarrow> k = bkey (blockno (buf s i)))
           else (\<forall>k<NBUCKET. \<not> on_bucket s k (Buf i))))"
proof -
  note r = brun_inv [OF bc_inv_binit assms]
  from r have "brun nbuf cs (binit nbuf bcache0) \<noteq> None" by auto
  moreover from r have "brun nbuf cs (binit nbuf bcache0) \<noteq> Some (Inl NullDeref)" by auto
  moreover have "if refcnt (buf s i) \<noteq> 0
           then on_bucket s (bkey (blockno (buf s i))) (Buf i)
              \<and> (\<forall>k<NBUCKET. on_bucket s k (Buf i) \<longrightarrow> k = bkey (blockno (buf s i)))
           else (\<forall>k<NBUCKET. \<not> on_bucket s k (Buf i))"
    if "brun nbuf cs (binit nbuf bcache0) = Some (Inr s)" "i < nbuf" for s i
  proof -
    from r that(1) have "bc_inv nbuf s" by auto
    then show ?thesis using that(2) by (rule bc_inv_membership)
  qed
  ultimately show ?thesis by blast
qed

lemma run_get_pin_release:
  "\<exists>s1 s3. bstep 1 (Bget 7 1 10) (binit 1 bcache0) = Some (Inr s1)
     \<and> refcnt (buf s1 0) = 1 \<and> lock (buf s1 0) = Some 7 \<and> dev (buf s1 0) = 1 \<and> blockno (buf s1 0) = 10
     \<and> bstep 1 (Bpin (Buf 0)) s1 = Some (Inr (s1\<lparr>buf := (buf s1)(0 := (buf s1 0)\<lparr>refcnt := 2\<rparr>)\<rparr>))
     \<and> bstep 1 (Brelse 7 5 (Buf 0)) (s1\<lparr>buf := (buf s1)(0 := (buf s1 0)\<lparr>refcnt := 2\<rparr>)\<rparr>) = Some (Inr s3)
     \<and> refcnt (buf s3 0) = 1 \<and> blockno (buf s3 0) = 10"
proof -
  from bget_first [of 1 7 1 10]
  obtain b s1 where g: "bget 1 7 1 10 (binit 1 bcache0) = Some (Inr (Buf b, s1))" and b: "b < 1"
    and f: "refcnt (buf s1 b) = 1" "lock (buf s1 b) = Some 7" "dev (buf s1 b) = 1" "blockno (buf s1 b) = 10"
    by auto
  from b have b0: "b = 0" by simp
  let ?s2 = "s1\<lparr>buf := (buf s1)(0 := (buf s1 0)\<lparr>refcnt := 2\<rparr>)\<rparr>"
  have 1: "bstep 1 (Bget 7 1 10) (binit 1 bcache0) = Some (Inr s1)" using g by (simp add: bstep_def)
  have 2: "bstep 1 (Bpin (Buf 0)) s1 = Some (Inr ?s2)" using f b0 by (simp add: bstep_def bpin_def)
  have h: "holdingsleep 7 (buf ?s2 0)" using f b0 by (simp add: holdingsleep_def)
  let ?s3 = "?s2\<lparr>buf := (buf ?s2)(0 := (buf ?s2 0)\<lparr>lock := None, refcnt := refcnt (buf ?s2 0) - 1\<rparr>)\<rparr>"
  have 3: "bstep 1 (Brelse 7 5 (Buf 0)) ?s2 = Some (Inr ?s3)"
    using brelse_eq [OF h, of 5] by (simp add: bstep_def)
  have 4: "refcnt (buf ?s3 0) = 1" "blockno (buf ?s3 0) = 10" using f b0 by simp_all
  from f b0 have f0: "refcnt (buf s1 0) = 1" "lock (buf s1 0) = Some 7" "dev (buf s1 0) = 1"
    "blockno (buf s1 0) = 10" by simp_all
  show ?thesis
    by (rule exI [of _ s1], rule exI [of _ ?s3]) (intro conjI 1 2 3 4 f0)
qed

theorem bucket_membership_witness:
  "proper_run 1 [Bget 7 1 10, Bpin (Buf 0), Brelse 7 5 (Buf 0)] (binit 1 bcache0)
   \<and> (\<exists>s. brun 1 [Bget 7 1 10, Bpin (Buf 0), Brelse 7 5 (Buf 0)] (binit 1 bcache0) = Some (Inr s)
         \<and> refcnt (buf s 0) = 1 \<and> blockno (buf s 0) = 10 \<and> on_bucket s (bkey 10) (Buf 0))"
proof -
  from run_get_pin_release obtain s1 s3 where
    1: "bstep 1 (Bget 7 1 10) (binit 1 bcache0) = Some (Inr s1)"
    and f: "refcnt (buf s1 0) = 1"
    and 2: "bstep 1 (Bpin (Buf 0)) s1 = Some (Inr (s1\<lparr>buf := (buf s1)(0 := (buf s1 0)\<lparr>refcnt := 2\<rparr>)\<rparr>))"
    and 3: "bstep 1 (Brelse 7 5 (Buf 0)) (s1\<lparr>buf := (buf s1)(0 := (buf s1 0)\<lparr>refcnt := 2\<rparr>)\<rparr>) = Some (Inr s3)"
    and g: "refcnt (buf s3 0) = 1" "blockno (buf s3 0) = 10"
    by blast
  have p: "proper_run 1 [Bget 7 1 10, Bpin (Buf 0), Brelse 7 5 (Buf 0)] (binit 1 bcache0)"
    using 1 2 3 f by (simp add: bcache0_def buf0_def)
  have r: "brun 1 [Bget 7 1 10, Bpin (Buf 0), Brelse 7 5 (Buf 0)] (binit 1 bcache0) = Some (Inr s3)"
    using 1 2 3 by simp
  from bucket_membership [OF p] r g have "on_bucket s3 (bkey 10) (Buf 0)"
    by (auto split: if_splits)
  with p r g show ?thesis by blast
qed

text \<open>
  The claim C2 as written says a buffer bound to a key is always in one bucket. After
  \<^verbatim>\<open>bget\<close> and \<^verbatim>\<open>brelse\<close> the buffer still carries its device and block number and is
  linked into no bucket: \<^verbatim>\<open>brelse\<close> unlinks a buffer whose count reaches zero.
\<close>

theorem bucket_membership_counterexample:
  "case brun 1 [Bget 7 1 10, Brelse 7 5 (Buf 0)] (binit 1 bcache0) of
     Some (Inr s) \<Rightarrow> dev (buf s 0) = 1 \<and> blockno (buf s 0) = 10
                      \<and> \<not> on_bucket s (bkey (blockno (buf s 0))) (Buf 0)
   | _ \<Rightarrow> False"
proof -
  from bget_first [of 1 7 1 10]
  obtain b s1 where g: "bget 1 7 1 10 (binit 1 bcache0) = Some (Inr (Buf b, s1))" and b: "b < 1"
    and i: "bc_lists 1 s1 ((\<lambda>k. [])(bkey 10 := [b]))"
    and f: "refcnt (buf s1 b) = 1" "lock (buf s1 b) = Some 7" "dev (buf s1 b) = 1" "blockno (buf s1 b) = 10"
    by auto
  from b have b0: "b = 0" by simp
  have h: "holdingsleep 7 (buf s1 0)" using f b0 by (simp add: holdingsleep_def)
  have l: "bucket_list s1 (bkey 10) [0]" using bc_lists_bucket [OF i bkey_less, of 10] b0 by simp
  have d: "dl (nxt s1) (prv s1) (Bucket (bkey 10)) [0] (Bucket (bkey 10))" using l by (simp add: bucket_list_def)
  from brelse_unlinks [OF h _ d, of 5] f b0
  obtain s2 where r: "brelse 7 5 (Buf 0) s1 = Inr s2"
    and v: "\<forall>j. blockno (buf s2 j) = blockno (buf s1 j)" "\<forall>j. dev (buf s2 j) = dev (buf s1 j)"
    and d2: "dl (nxt s2) (prv s2) (Bucket (bkey 10)) (remove1 0 [0]) (Bucket (bkey 10))"
    by auto
  have "bucket_list s2 (bkey 10) []" using d2 by (simp add: bucket_list_def)
  from on_bucket_iff [OF this, of "Buf 0"] have o: "\<not> on_bucket s2 (bkey 10) (Buf 0)" by simp
  have "brun 1 [Bget 7 1 10, Brelse 7 5 (Buf 0)] (binit 1 bcache0) = Some (Inr s2)"
    using g r b0 by (simp add: bstep_def)
  with o v f b0 show ?thesis by simp
qed

end
